theory Spec2Isabelle
  imports Main "HOL-Library.AList"
begin

section \<open>Expiration times (ReactFiberExpirationTime.js)\<close>

text \<open>
  An \<open>ExpirationTime\<close> is a JavaScript number that only ever holds integers; a larger
  value is a higher priority. Milliseconds and expiration times are modelled as \<open>int\<close>.
  On integers, JavaScript's \<open>x / y | 0\<close> is the quotient truncated towards zero and then
  taken through the \<open>ToInt32\<close> conversion, which wraps modulo \<open>2 ^ 32\<close> into the signed
  32-bit range; both steps are written out.
\<close>

type_synonym ExpirationTime = int

definition ToInt32 :: "int \<Rightarrow> int" where
  "ToInt32 n = (n + 2 ^ 31) mod 2 ^ 32 - 2 ^ 31"

definition truncate_quotient :: "int \<Rightarrow> int \<Rightarrow> int" where
  "truncate_quotient a b = sgn a * sgn b * (\<bar>a\<bar> div \<bar>b\<bar>)"

text \<open>
  Modelled from the spec: the module \<open>maxSigned31BitInt\<close> is imported by the source but is
  not among the files; its value is the one the comment at the definition of \<open>Sync\<close>
  records, the largest 31-bit signed integer.
\<close>

definition MAX_SIGNED_31_BIT_INT :: int where
  "MAX_SIGNED_31_BIT_INT = 1073741823"

definition NoWork :: ExpirationTime where "NoWork = 0"
definition Never :: ExpirationTime where "Never = 1"
definition Idle :: ExpirationTime where "Idle = 2"
definition ContinuousHydration :: ExpirationTime where "ContinuousHydration = 3"
definition Sync :: ExpirationTime where "Sync = MAX_SIGNED_31_BIT_INT"
definition Batched :: ExpirationTime where "Batched = Sync - 1"

definition UNIT_SIZE :: int where "UNIT_SIZE = 10"
definition MAGIC_NUMBER_OFFSET :: int where "MAGIC_NUMBER_OFFSET = Batched - 1"

definition msToExpirationTime :: "int \<Rightarrow> ExpirationTime" where
  "msToExpirationTime ms = MAGIC_NUMBER_OFFSET - ToInt32 (truncate_quotient ms UNIT_SIZE)"

definition expirationTimeToMs :: "ExpirationTime \<Rightarrow> int" where
  "expirationTimeToMs expirationTime = (MAGIC_NUMBER_OFFSET - expirationTime) * UNIT_SIZE"

definition ceiling_js :: "int \<Rightarrow> int \<Rightarrow> int" where
  "ceiling_js num precision = (ToInt32 (truncate_quotient num precision) + 1) * precision"

text \<open>
  \<open>computeExpirationBucket\<close> divides its two millisecond arguments by \<open>UNIT_SIZE\<close> without
  truncating. The callers modelled here pass the constants 5000, 250, 500, 150 and 100,
  all multiples of ten, for which the quotient is the integer \<open>div\<close> gives.
\<close>

definition computeExpirationBucket :: "ExpirationTime \<Rightarrow> int \<Rightarrow> int \<Rightarrow> ExpirationTime" where
  "computeExpirationBucket currentTime expirationInMs bucketSizeMs =
     MAGIC_NUMBER_OFFSET -
       ceiling_js (MAGIC_NUMBER_OFFSET - currentTime + expirationInMs div UNIT_SIZE)
         (bucketSizeMs div UNIT_SIZE)"

definition LOW_PRIORITY_EXPIRATION :: int where "LOW_PRIORITY_EXPIRATION = 5000"
definition LOW_PRIORITY_BATCH_SIZE :: int where "LOW_PRIORITY_BATCH_SIZE = 250"

definition computeAsyncExpiration :: "ExpirationTime \<Rightarrow> ExpirationTime" where
  "computeAsyncExpiration currentTime =
     computeExpirationBucket currentTime LOW_PRIORITY_EXPIRATION LOW_PRIORITY_BATCH_SIZE"

text \<open>The build flag \<open>__DEV__\<close> is a parameter of everything that reads it.\<close>

definition HIGH_PRIORITY_EXPIRATION :: "bool \<Rightarrow> int" where
  "HIGH_PRIORITY_EXPIRATION dev = (if dev then 500 else 150)"

definition HIGH_PRIORITY_BATCH_SIZE :: int where "HIGH_PRIORITY_BATCH_SIZE = 100"

definition computeInteractiveExpiration :: "bool \<Rightarrow> ExpirationTime \<Rightarrow> ExpirationTime" where
  "computeInteractiveExpiration dev currentTime =
     computeExpirationBucket currentTime (HIGH_PRIORITY_EXPIRATION dev) HIGH_PRIORITY_BATCH_SIZE"

section \<open>Root scheduling state (ReactFiberRoot.js)\<close>

text \<open>The fields of a \<open>FiberRoot\<close> that the range bookkeeping reads and writes.\<close>

record FiberRoot =
  firstPendingTime :: ExpirationTime
  firstSuspendedTime :: ExpirationTime
  lastSuspendedTime :: ExpirationTime
  nextKnownPendingLevel :: ExpirationTime
  lastPingedTime :: ExpirationTime
  lastExpiredTime :: ExpirationTime

definition isRootSuspendedAtTime :: "FiberRoot \<Rightarrow> ExpirationTime \<Rightarrow> bool" where
  "isRootSuspendedAtTime root expirationTime =
     (firstSuspendedTime root \<noteq> NoWork \<and>
      firstSuspendedTime root \<ge> expirationTime \<and>
      lastSuspendedTime root \<le> expirationTime)"

definition markRootSuspendedAtTime :: "FiberRoot \<Rightarrow> ExpirationTime \<Rightarrow> FiberRoot" where
  "markRootSuspendedAtTime root expirationTime =
     (let firstSuspended = firstSuspendedTime root;
          lastSuspended = lastSuspendedTime root;
          root = (if firstSuspended < expirationTime
                  then root\<lparr>firstSuspendedTime := expirationTime\<rparr> else root);
          root = (if lastSuspended > expirationTime \<or> firstSuspended = NoWork
                  then root\<lparr>lastSuspendedTime := expirationTime\<rparr> else root);
          root = (if expirationTime \<le> lastPingedTime root
                  then root\<lparr>lastPingedTime := NoWork\<rparr> else root);
          root = (if expirationTime \<le> lastExpiredTime root
                  then root\<lparr>lastExpiredTime := NoWork\<rparr> else root)
      in root)"

definition markRootUpdatedAtTime :: "FiberRoot \<Rightarrow> ExpirationTime \<Rightarrow> FiberRoot" where
  "markRootUpdatedAtTime root expirationTime =
     (let root = (if expirationTime > firstPendingTime root
                  then root\<lparr>firstPendingTime := expirationTime\<rparr> else root);
          firstSuspended = firstSuspendedTime root
      in if firstSuspended \<noteq> NoWork then
           (let root =
                  (if expirationTime \<ge> firstSuspended
                   then root\<lparr>nextKnownPendingLevel := NoWork, lastSuspendedTime := NoWork,
                             firstSuspendedTime := NoWork\<rparr>
                   else if expirationTime \<ge> lastSuspendedTime root
                   then root\<lparr>lastSuspendedTime := expirationTime + 1\<rparr>
                   else root)
            in if expirationTime > nextKnownPendingLevel root
               then root\<lparr>nextKnownPendingLevel := expirationTime\<rparr>
               else root)
         else root)"

definition markRootFinishedAtTime ::
  "FiberRoot \<Rightarrow> ExpirationTime \<Rightarrow> ExpirationTime \<Rightarrow> FiberRoot" where
  "markRootFinishedAtTime root finishedExpirationTime remainingExpirationTime =
     (let root = root\<lparr>firstPendingTime := remainingExpirationTime\<rparr>;
          root = (if finishedExpirationTime \<le> lastSuspendedTime root
                  then root\<lparr>nextKnownPendingLevel := NoWork, lastSuspendedTime := NoWork,
                            firstSuspendedTime := NoWork\<rparr>
                  else if finishedExpirationTime \<le> firstSuspendedTime root
                  then root\<lparr>firstSuspendedTime := finishedExpirationTime - 1\<rparr>
                  else root);
          root = (if finishedExpirationTime \<le> lastPingedTime root
                  then root\<lparr>lastPingedTime := NoWork\<rparr> else root);
          root = (if finishedExpirationTime \<le> lastExpiredTime root
                  then root\<lparr>lastExpiredTime := NoWork\<rparr> else root)
      in root)"

definition markRootExpiredAtTime :: "FiberRoot \<Rightarrow> ExpirationTime \<Rightarrow> FiberRoot" where
  "markRootExpiredAtTime root expirationTime =
     (let lastExpired = lastExpiredTime root
      in if lastExpired = NoWork \<or> lastExpired > expirationTime
         then root\<lparr>lastExpiredTime := expirationTime\<rparr>
         else root)"

section \<open>Side effect tags (ReactSideEffectTags.js)\<close>

text \<open>The bit masks that the update queue sets on a fiber's \<open>effectTag\<close>.\<close>

definition Callback :: int where "Callback = 32"
definition DidCapture :: int where "DidCapture = 64"
definition ShouldCapture :: int where "ShouldCapture = 4096"

section \<open>Update queues (ReactUpdateQueue.js)\<close>

subsection \<open>JavaScript values\<close>

text \<open>
  State, props and instance have type \<open>any\<close> in the source. The values modelled are
  \<open>null\<close>, \<open>undefined\<close>, booleans, integral numbers and plain objects; an object is the list
  of its own enumerable properties in insertion order, with distinct keys. Assigning a
  property replaces the value of a key the object has and appends a new key otherwise,
  which is \<open>AList.update\<close>.

  \<open>Object.assign(target, ...sources)\<close> copies, source by source and property by
  property, every own enumerable property of each source onto the target; \<open>null\<close>,
  \<open>undefined\<close>, booleans and numbers contribute no property.
\<close>

datatype jsval =
  JNull
  | JUndefined
  | JBool bool
  | JNum int
  | JObject "(string \<times> jsval) list"

fun own_properties :: "jsval \<Rightarrow> (string \<times> jsval) list" where
  "own_properties (JObject ps) = ps"
| "own_properties _ = []"

definition assign_properties ::
  "(string \<times> jsval) list \<Rightarrow> (string \<times> jsval) list \<Rightarrow> (string \<times> jsval) list" where
  "assign_properties source target = fold (\<lambda>(k, v). AList.update k v) source target"

definition Object_assign :: "(string \<times> jsval) list \<Rightarrow> jsval list \<Rightarrow> jsval" where
  "Object_assign target sources =
     JObject (fold (\<lambda>source. assign_properties (own_properties source)) sources target)"

subsection \<open>Updates, queues and fibers as heap objects\<close>

text \<open>
  Updates, shared queues, update queues, effect arrays and fibers are JavaScript objects
  that the code aliases and mutates in place, so each kind lives in a store indexed by
  references. A store is a total function together with the number of objects allocated so
  far; allocation takes the next unused reference.

  A payload is a literal value or an updater function, called as
  \<open>payload.call(instance, prevState, nextProps)\<close>; updater functions are pure and total. A
  callback is a function, named by a number and possibly throwing, or a value that is not a
  function. The statements under \<open>__DEV__\<close> in this module only emit diagnostics or call
  the pure updater a second time; they are not modelled.
\<close>

type_synonym ref = nat

record SuspenseConfig =
  timeoutMs :: int
  busyDelayMs :: "int option"
  busyMinDurationMs :: "int option"

datatype UpdateTag = UpdateState | ReplaceState | ForceUpdate | CaptureUpdate

datatype Payload =
  Value jsval
  | Function "jsval \<Rightarrow> jsval \<Rightarrow> jsval \<Rightarrow> jsval"

datatype error = TypeError | InvariantViolation | Thrown nat

datatype CallbackValue =
  Fn nat "error option"
  | NotAFunction jsval

record Update =
  expirationTime :: ExpirationTime
  suspenseConfig :: "SuspenseConfig option"
  tag :: UpdateTag
  payload :: Payload
  callback :: "CallbackValue option"
  next_update :: "ref option"

record SharedQueue =
  pending :: "ref option"

record UpdateQueue =
  baseState :: jsval
  baseQueue :: "ref option"
  shared :: ref
  effects :: "ref option"

record Fiber =
  updateQueue :: "ref option"
  alternate :: "ref option"
  memoizedState :: jsval
  expirationTime_fiber :: ExpirationTime
  effectTag :: int

text \<open>
  Modelled from the spec: \<open>markRenderEventTimeAndConfig\<close> and \<open>markUnprocessedUpdateTime\<close>
  belong to \<open>ReactFiberWorkLoop\<close>, which is not among the sources; the spec describes them
  as setters without a return value. A call to either, and every invocation of a commit
  callback, is recorded in the trace of the world.
\<close>

datatype event =
  RenderEventTimeAndConfig ExpirationTime "SuspenseConfig option"
  | UnprocessedUpdateTime ExpirationTime
  | CallbackCalled nat jsval

record World =
  updates :: "ref \<Rightarrow> Update"
  update_count :: nat
  sharedQueues :: "ref \<Rightarrow> SharedQueue"
  sharedQueue_count :: nat
  updateQueues :: "ref \<Rightarrow> UpdateQueue"
  updateQueue_count :: nat
  arrays :: "ref \<Rightarrow> ref list"
  array_count :: nat
  fibers :: "ref \<Rightarrow> Fiber"
  hasForceUpdate :: bool
  trace :: "event list"

definition new_update :: "World \<Rightarrow> Update \<Rightarrow> ref \<times> World" where
  "new_update w u =
     (update_count w,
      w\<lparr>updates := (updates w)(update_count w := u), update_count := Suc (update_count w)\<rparr>)"

definition set_next :: "World \<Rightarrow> ref \<Rightarrow> ref option \<Rightarrow> World" where
  "set_next w r n = w\<lparr>updates := (updates w)(r := (updates w r)\<lparr>next_update := n\<rparr>)\<rparr>"

definition set_pending :: "World \<Rightarrow> ref \<Rightarrow> ref option \<Rightarrow> World" where
  "set_pending w s p = w\<lparr>sharedQueues := (sharedQueues w)(s := \<lparr>pending = p\<rparr>)\<rparr>"

definition markRenderEventTimeAndConfig ::
  "World \<Rightarrow> ExpirationTime \<Rightarrow> SuspenseConfig option \<Rightarrow> World" where
  "markRenderEventTimeAndConfig w t config =
     w\<lparr>trace := trace w @ [RenderEventTimeAndConfig t config]\<rparr>"

definition markUnprocessedUpdateTime :: "World \<Rightarrow> ExpirationTime \<Rightarrow> World" where
  "markUnprocessedUpdateTime w t = w\<lparr>trace := trace w @ [UnprocessedUpdateTime t]\<rparr>"

subsection \<open>Creating and enqueueing updates\<close>

definition initializeUpdateQueue :: "World \<Rightarrow> ref \<Rightarrow> World" where
  "initializeUpdateQueue w fiber =
     (let s = sharedQueue_count w;
          q = updateQueue_count w;
          queue = \<lparr>baseState = memoizedState (fibers w fiber), baseQueue = None,
                   shared = s, effects = None\<rparr>
      in w\<lparr>sharedQueues := (sharedQueues w)(s := \<lparr>pending = None\<rparr>),
           sharedQueue_count := Suc s,
           updateQueues := (updateQueues w)(q := queue),
           updateQueue_count := Suc q,
           fibers := (fibers w)(fiber := (fibers w fiber)\<lparr>updateQueue := Some q\<rparr>)\<rparr>)"

definition createUpdate ::
  "World \<Rightarrow> ExpirationTime \<Rightarrow> SuspenseConfig option \<Rightarrow> ref \<times> World" where
  "createUpdate w expiration config =
     (let (update, w) = new_update w
            \<lparr>expirationTime = expiration, suspenseConfig = config, tag = UpdateState,
             payload = Value JNull, callback = None, next_update = None\<rparr>
      in (update, set_next w update (Some update)))"

definition enqueueUpdate :: "World \<Rightarrow> ref \<Rightarrow> ref \<Rightarrow> World" where
  "enqueueUpdate w fiber update =
     (case updateQueue (fibers w fiber) of
        None \<Rightarrow> w
      | Some q \<Rightarrow>
          (let sharedQueue = shared (updateQueues w q);
               w = (case pending (sharedQueues w sharedQueue) of
                      None \<Rightarrow> set_next w update (Some update)
                    | Some p \<Rightarrow>
                        (let w = set_next w update (next_update (updates w p))
                         in set_next w p (Some update)))
           in set_pending w sharedQueue (Some update)))"

subsection \<open>Computing the next state\<close>

definition getStateFromUpdate ::
  "World \<Rightarrow> ref \<Rightarrow> ref \<Rightarrow> ref \<Rightarrow> jsval \<Rightarrow> jsval \<Rightarrow> jsval \<Rightarrow> World \<times> jsval" where
  "getStateFromUpdate w workInProgress queue update prevState nextProps instance =
     (let merge = (\<lambda>w.
            (let partialState =
                   (case payload (updates w update) of
                      Function f \<Rightarrow> f instance prevState nextProps
                    | Value v \<Rightarrow> v)
             in if partialState = JNull \<or> partialState = JUndefined then (w, prevState)
                else (w, Object_assign [] [prevState, partialState])))
      in case tag (updates w update) of
           ReplaceState \<Rightarrow>
             (case payload (updates w update) of
                Function f \<Rightarrow> (w, f instance prevState nextProps)
              | Value v \<Rightarrow> (w, v))
         | CaptureUpdate \<Rightarrow>
             merge (w\<lparr>fibers := (fibers w)(workInProgress := (fibers w workInProgress)
                      \<lparr>effectTag := or (and (effectTag (fibers w workInProgress))
                                             (not ShouldCapture)) DidCapture\<rparr>)\<rparr>)
         | UpdateState \<Rightarrow> merge w
         | ForceUpdate \<Rightarrow> (w\<lparr>hasForceUpdate := True\<rparr>, prevState))"

subsection \<open>Processing the queue\<close>

text \<open>
  The local variables of the loop of \<open>processUpdateQueue\<close>, apart from \<open>update\<close> itself,
  which is an argument of the loop. Inside the loop \<open>baseQueue\<close> is never \<open>null\<close>;
  \<open>newBaseState\<close> starts as \<open>null\<close>.
\<close>

record ProcessVars =
  baseQueue_var :: ref
  newState :: jsval
  newExpirationTime :: ExpirationTime
  newBaseState :: jsval
  newBaseQueueFirst :: "ref option"
  newBaseQueueLast :: "ref option"

text \<open>
  The block \<open>if (callback !== null) { ... }\<close> of the loop body: the fiber is flagged with
  \<open>Callback\<close> and the update is pushed onto \<open>queue.effects\<close>, a new array if there is none.
\<close>

definition push_effect :: "ref \<Rightarrow> ref \<Rightarrow> World \<Rightarrow> ref \<Rightarrow> World" where
  "push_effect workInProgress queue w update =
     (case callback (updates w update) of
        None \<Rightarrow> w
      | Some c \<Rightarrow>
          (let w = w\<lparr>fibers := (fibers w)(workInProgress := (fibers w workInProgress)
                     \<lparr>effectTag := or (effectTag (fibers w workInProgress)) Callback\<rparr>)\<rparr>
           in case effects (updateQueues w queue) of
                None \<Rightarrow>
                  w\<lparr>arrays := (arrays w)(array_count w := [update]),
                    array_count := Suc (array_count w),
                    updateQueues := (updateQueues w)(queue := (updateQueues w queue)
                      \<lparr>effects := Some (array_count w)\<rparr>)\<rparr>
              | Some a \<Rightarrow> w\<lparr>arrays := (arrays w)(a := arrays w a @ [update])\<rparr>))"

text \<open>
  The body of the loop for the update \<open>update\<close>, up to the statement that advances to
  \<open>update.next\<close>: an update below the render priority is cloned onto the new base queue;
  an update with sufficient priority is cloned too, stamped \<open>Sync\<close>, when an earlier one was
  skipped, and then applied.
\<close>

definition process_update ::
  "ref \<Rightarrow> ref \<Rightarrow> jsval \<Rightarrow> jsval \<Rightarrow> ExpirationTime \<Rightarrow> World \<Rightarrow> ProcessVars \<Rightarrow> ref
     \<Rightarrow> World \<times> ProcessVars" where
  "process_update workInProgress queue props instance renderExpirationTime w v update =
     (let updateExpirationTime = expirationTime (updates w update)
      in if updateExpirationTime < renderExpirationTime then
           (let (clone, w) = new_update w
                  \<lparr>expirationTime = expirationTime (updates w update),
                   suspenseConfig = suspenseConfig (updates w update),
                   tag = tag (updates w update),
                   payload = payload (updates w update),
                   callback = callback (updates w update),
                   next_update = None\<rparr>;
                (w, v) =
                  (case newBaseQueueLast v of
                     None \<Rightarrow>
                       (w, v\<lparr>newBaseQueueFirst := Some clone, newBaseQueueLast := Some clone,
                              newBaseState := newState v\<rparr>)
                   | Some lastClone \<Rightarrow>
                       (set_next w lastClone (Some clone), v\<lparr>newBaseQueueLast := Some clone\<rparr>))
            in if updateExpirationTime > newExpirationTime v
               then (w, v\<lparr>newExpirationTime := updateExpirationTime\<rparr>)
               else (w, v))
         else
           (let (w, v) =
                  (case newBaseQueueLast v of
                     None \<Rightarrow> (w, v)
                   | Some lastClone \<Rightarrow>
                       (let (clone, w) = new_update w
                              \<lparr>expirationTime = Sync,
                               suspenseConfig = suspenseConfig (updates w update),
                               tag = tag (updates w update),
                               payload = payload (updates w update),
                               callback = callback (updates w update),
                               next_update = None\<rparr>
                        in (set_next w lastClone (Some clone), v\<lparr>newBaseQueueLast := Some clone\<rparr>)));
                w = markRenderEventTimeAndConfig w updateExpirationTime
                      (suspenseConfig (updates w update));
                (w, s) = getStateFromUpdate w workInProgress queue update (newState v)
                           props instance;
                v = v\<lparr>newState := s\<rparr>
            in (push_effect workInProgress queue w update, v)))"

text \<open>
  The end of the loop body: advance to \<open>update.next\<close>; when that is \<open>null\<close> or the first
  update again, stop unless \<open>shared.pending\<close> has gained updates in the meantime, which are
  then spliced in behind the base queue. The result \<open>Break\<close> leaves the loop, and
  \<open>Continue u\<close> goes on with \<open>update = u\<close>.
\<close>

datatype loop_step = Break | Continue "ref option"

definition advance_update ::
  "ref \<Rightarrow> ref \<Rightarrow> World \<Rightarrow> ProcessVars \<Rightarrow> ref \<Rightarrow> World \<times> ProcessVars \<times> loop_step" where
  "advance_update queue first w v update =
     (let nxt = next_update (updates w update)
      in if nxt = None \<or> nxt = Some first then
           (case pending (sharedQueues w (shared (updateQueues w queue))) of
              None \<Rightarrow> (w, v, Break)
            | Some pendingQueue \<Rightarrow>
                (let pendingFirst = next_update (updates w pendingQueue);
                     w = set_next w (baseQueue_var v) pendingFirst;
                     w = set_next w pendingQueue (Some first);
                     w = w\<lparr>updateQueues := (updateQueues w)(queue := (updateQueues w queue)
                            \<lparr>baseQueue := Some pendingQueue\<rparr>)\<rparr>;
                     w = set_pending w (shared (updateQueues w queue)) None
                 in (w, v\<lparr>baseQueue_var := pendingQueue\<rparr>, Continue pendingFirst)))
         else (w, v, Continue nxt))"

text \<open>
  The \<open>do ... while (true)\<close> loop. It follows \<open>next\<close> pointers of heap objects and need
  not terminate on an ill-formed heap, so it is a partial function: \<open>None\<close> means that the
  loop does not return. Reading a field of \<open>null\<close> raises a \<open>TypeError\<close>.
\<close>

partial_function (option) process_loop ::
  "ref \<Rightarrow> ref \<Rightarrow> jsval \<Rightarrow> jsval \<Rightarrow> ExpirationTime \<Rightarrow> ref \<Rightarrow> World \<Rightarrow> ProcessVars
     \<Rightarrow> ref option \<Rightarrow> (error option \<times> World \<times> ProcessVars) option" where
  "process_loop workInProgress queue props instance renderExpirationTime first w v update_var =
     (case update_var of
        None \<Rightarrow> Some (Some TypeError, w, v)
      | Some update \<Rightarrow>
          (case process_update workInProgress queue props instance renderExpirationTime
                  w v update of
             (w, v) \<Rightarrow>
               (case advance_update queue first w v update of
                  (w, v, Break) \<Rightarrow> Some (None, w, v)
                | (w, v, Continue u) \<Rightarrow>
                    process_loop workInProgress queue props instance renderExpirationTime
                      first w v u)))"

declare process_loop.simps [code]

text \<open>The statements after the loop.\<close>

definition finish_queue :: "ref \<Rightarrow> ref \<Rightarrow> World \<Rightarrow> ProcessVars \<Rightarrow> World" where
  "finish_queue workInProgress queue w v =
     (let (w, v) =
            (case newBaseQueueLast v of
               None \<Rightarrow> (w, v\<lparr>newBaseState := newState v\<rparr>)
             | Some lastClone \<Rightarrow> (set_next w lastClone (newBaseQueueFirst v), v));
          w = w\<lparr>updateQueues := (updateQueues w)(queue := (updateQueues w queue)
                 \<lparr>baseState := newBaseState v, baseQueue := newBaseQueueLast v\<rparr>)\<rparr>;
          w = markUnprocessedUpdateTime w (newExpirationTime v)
      in w\<lparr>fibers := (fibers w)(workInProgress := (fibers w workInProgress)
             \<lparr>memoizedState := newState v,
              expirationTime_fiber := newExpirationTime v\<rparr>)\<rparr>)"

text \<open>
  The statements before the loop: the pending queue is merged behind the base queue,
  \<open>shared.pending\<close> is cleared and the pending pointer is stored as the base queue of the
  alternate fiber's queue. The result is the local \<open>baseQueue\<close>.
\<close>

definition merge_pending :: "ref \<Rightarrow> ref \<Rightarrow> World \<Rightarrow> World \<times> ref option" where
  "merge_pending workInProgress queue w =
     (let baseQueue = baseQueue (updateQueues w queue)
      in case pending (sharedQueues w (shared (updateQueues w queue))) of
           None \<Rightarrow> (w, baseQueue)
         | Some pendingQueue \<Rightarrow>
             (let w = (case baseQueue of
                         None \<Rightarrow> w
                       | Some baseLast \<Rightarrow>
                           (let baseFirst = next_update (updates w baseLast);
                                pendingFirst = next_update (updates w pendingQueue);
                                w = set_next w baseLast pendingFirst
                            in set_next w pendingQueue baseFirst));
                  w = set_pending w (shared (updateQueues w queue)) None;
                  w = (case alternate (fibers w workInProgress) of
                         None \<Rightarrow> w
                       | Some current \<Rightarrow>
                           (case updateQueue (fibers w current) of
                              None \<Rightarrow> w
                            | Some currentQueue \<Rightarrow>
                                w\<lparr>updateQueues := (updateQueues w)(currentQueue :=
                                    (updateQueues w currentQueue)
                                      \<lparr>baseQueue := Some pendingQueue\<rparr>)\<rparr>))
              in (w, Some pendingQueue)))"

definition processUpdateQueue ::
  "World \<Rightarrow> ref \<Rightarrow> jsval \<Rightarrow> jsval \<Rightarrow> ExpirationTime \<Rightarrow> (error option \<times> World) option" where
  "processUpdateQueue w workInProgress props instance renderExpirationTime =
     (let w = w\<lparr>hasForceUpdate := False\<rparr>
      in case updateQueue (fibers w workInProgress) of
           None \<Rightarrow> Some (Some TypeError, w)
         | Some queue \<Rightarrow>
             (case merge_pending workInProgress queue w of
                (w, None) \<Rightarrow> Some (None, w)
              | (w, Some baseLast) \<Rightarrow>
                  (let first = next_update (updates w baseLast);
                       v = \<lparr>baseQueue_var = baseLast,
                            newState = baseState (updateQueues w queue),
                            newExpirationTime = NoWork, newBaseState = JNull,
                            newBaseQueueFirst = None, newBaseQueueLast = None\<rparr>
                   in case first of
                        None \<Rightarrow> Some (None, finish_queue workInProgress queue w v)
                      | Some f \<Rightarrow>
                          (case process_loop workInProgress queue props instance
                                  renderExpirationTime f w v (Some f) of
                             None \<Rightarrow> None
                           | Some (Some e, w, v) \<Rightarrow> Some (Some e, w)
                           | Some (None, w, v) \<Rightarrow>
                               Some (None, finish_queue workInProgress queue w v)))))"

subsection \<open>Committing the effects\<close>

definition callCallback :: "World \<Rightarrow> CallbackValue \<Rightarrow> jsval \<Rightarrow> error option \<times> World" where
  "callCallback w c context =
     (case c of
        NotAFunction x \<Rightarrow> (Some InvariantViolation, w)
      | Fn name thrown \<Rightarrow> (thrown, w\<lparr>trace := trace w @ [CallbackCalled name context]\<rparr>))"

text \<open>The \<open>for\<close> loop of \<open>commitUpdateQueue\<close> over the elements of the effects array.\<close>

fun commit_effects :: "World \<Rightarrow> jsval \<Rightarrow> ref list \<Rightarrow> error option \<times> World" where
  "commit_effects w instance [] = (None, w)"
| "commit_effects w instance (effect # rest) =
     (case callback (updates w effect) of
        None \<Rightarrow> commit_effects w instance rest
      | Some c \<Rightarrow>
          (let w = w\<lparr>updates := (updates w)(effect := (updates w effect)\<lparr>callback := None\<rparr>)\<rparr>
           in case callCallback w c instance of
                (Some e, w) \<Rightarrow> (Some e, w)
              | (None, w) \<Rightarrow> commit_effects w instance rest))"

definition commitUpdateQueue :: "World \<Rightarrow> ref \<Rightarrow> ref \<Rightarrow> jsval \<Rightarrow> error option \<times> World" where
  "commitUpdateQueue w finishedWork finishedQueue instance =
     (let effectsArray = effects (updateQueues w finishedQueue);
          w = w\<lparr>updateQueues := (updateQueues w)(finishedQueue :=
                 (updateQueues w finishedQueue)\<lparr>effects := None\<rparr>)\<rparr>
      in case effectsArray of
           None \<Rightarrow> (None, w)
         | Some a \<Rightarrow> commit_effects w instance (arrays w a))"

subsection \<open>Fixtures\<close>

text \<open>
  An empty world, and a caller of the module in the way \<open>setState\<close> uses it: create an
  update, set its tag, payload and callback, and enqueue it on the fiber. The update to
  schedule is described by a record of which the \<open>next\<close> field is not used.
\<close>

definition empty_world :: World where
  "empty_world =
     \<lparr>updates = (\<lambda>r. \<lparr>expirationTime = NoWork, suspenseConfig = None, tag = UpdateState,
                       payload = Value JNull, callback = None, next_update = None\<rparr>),
      update_count = 0,
      sharedQueues = (\<lambda>r. \<lparr>pending = None\<rparr>),
      sharedQueue_count = 0,
      updateQueues = (\<lambda>r. \<lparr>baseState = JNull, baseQueue = None, shared = 0, effects = None\<rparr>),
      updateQueue_count = 0,
      arrays = (\<lambda>r. []),
      array_count = 0,
      fibers = (\<lambda>r. \<lparr>updateQueue = None, alternate = None, memoizedState = JNull,
                      expirationTime_fiber = NoWork, effectTag = 0\<rparr>),
      hasForceUpdate = False,
      trace = []\<rparr>"

definition scheduleUpdate :: "ref \<Rightarrow> Update \<Rightarrow> World \<Rightarrow> World" where
  "scheduleUpdate fiber u w =
     (let (update, w) = createUpdate w (expirationTime u) (suspenseConfig u);
          w = w\<lparr>updates := (updates w)(update := (updates w update)
                 \<lparr>tag := tag u, payload := payload u, callback := callback u\<rparr>)\<rparr>
      in enqueueUpdate w fiber update)"

definition schedule_all :: "ref \<Rightarrow> Update list \<Rightarrow> World \<Rightarrow> World" where
  "schedule_all fiber us w = fold (scheduleUpdate fiber) us w"

text \<open>
  Rendering the same fiber several times in a row, once for each render expiration time
  of the list, with the same props and instance; an exception ends the sequence.
\<close>

fun process_passes ::
  "World \<Rightarrow> ref \<Rightarrow> jsval \<Rightarrow> jsval \<Rightarrow> ExpirationTime list \<Rightarrow> (error option \<times> World) option" where
  "process_passes w workInProgress props instance [] = Some (None, w)"
| "process_passes w workInProgress props instance (r # rs) =
     (case processUpdateQueue w workInProgress props instance r of
        None \<Rightarrow> None
      | Some (Some e, w') \<Rightarrow> Some (Some e, w')
      | Some (None, w') \<Rightarrow> process_passes w' workInProgress props instance rs)"

section \<open>Synchronous callback queue (SchedulerWithReactIntegration.js)\<close>

text \<open>
  Modelled from the spec: the package \<open>scheduler\<close> is an external collaborator, a black box
  with \<open>scheduleCallback(priority, fn)\<close>, which returns a handle, and
  \<open>cancelCallback(handle)\<close>. Its state is the list of the calls of \<open>scheduleCallback\<close>,
  the handle of a call being its position in the list, and the list of cancelled handles.
  \<open>runWithPriority(priority, fn)\<close> calls \<open>fn\<close> and lets its exceptions through; the
  priority it sets for the duration of the call is not observed by anything modelled here.
\<close>

datatype SchedulerPriority =
  Scheduler_ImmediatePriority
  | Scheduler_UserBlockingPriority
  | Scheduler_NormalPriority
  | Scheduler_LowPriority
  | Scheduler_IdlePriority

datatype ScheduledTask = Task_flushSyncCallbackQueueImpl | Task_flushSyncCallbackQueue

text \<open>
  A \<open>SchedulerCallback\<close> is a function that returns a continuation or \<open>null\<close>, or throws.
  What it does to the variables of this module while it runs is to call the exported
  functions \<open>scheduleSyncCallback\<close> and \<open>flushSyncCallbackQueue\<close>: a callback is described
  by the calls it makes, in order, and by how it ends. A callback does not catch the
  exception of a call of \<open>flushSyncCallbackQueue\<close> that it makes.
\<close>

datatype SchedulerCallback =
  Return_null
  | Return_continuation SchedulerCallback
  | Throw error
  | Call_scheduleSyncCallback SchedulerCallback SchedulerCallback
  | Call_flushSyncCallbackQueue SchedulerCallback

text \<open>
  The variables of the module, the arrays they refer to, and the state of the external
  scheduler. \<open>syncQueue\<close> is a reference: the local \<open>queue\<close> of
  \<open>flushSyncCallbackQueueImpl\<close> and the variable \<open>syncQueue\<close> name one array, and a callback
  pushed during a flush is seen by the loop that is running.
\<close>

record SchedulerState =
  callbackArrays :: "ref \<Rightarrow> SchedulerCallback list"
  callbackArray_count :: nat
  syncQueue :: "ref option"
  immediateQueueCallbackNode :: "nat option"
  isFlushingSyncQueue :: bool
  scheduled :: "(SchedulerPriority \<times> ScheduledTask) list"
  cancelled :: "nat list"

definition Scheduler_scheduleCallback ::
  "SchedulerState \<Rightarrow> SchedulerPriority \<Rightarrow> ScheduledTask \<Rightarrow> nat \<times> SchedulerState" where
  "Scheduler_scheduleCallback s priority task =
     (length (scheduled s), s\<lparr>scheduled := scheduled s @ [(priority, task)]\<rparr>)"

definition Scheduler_cancelCallback :: "SchedulerState \<Rightarrow> nat \<Rightarrow> SchedulerState" where
  "Scheduler_cancelCallback s node = s\<lparr>cancelled := cancelled s @ [node]\<rparr>"

text \<open>The array literal \<open>[callback]\<close> and \<open>syncQueue.slice(i + 1)\<close> make a new array.\<close>

definition new_array :: "SchedulerState \<Rightarrow> SchedulerCallback list \<Rightarrow> ref \<times> SchedulerState" where
  "new_array s entries =
     (callbackArray_count s,
      s\<lparr>callbackArrays := (callbackArrays s)(callbackArray_count s := entries),
        callbackArray_count := Suc (callbackArray_count s)\<rparr>)"

definition scheduleSyncCallback :: "SchedulerCallback \<Rightarrow> SchedulerState \<Rightarrow> SchedulerState" where
  "scheduleSyncCallback syncCallback s =
     (case syncQueue s of
        None \<Rightarrow>
          (let (queue, s) = new_array s [syncCallback];
               s = s\<lparr>syncQueue := Some queue\<rparr>;
               (node, s) = Scheduler_scheduleCallback s Scheduler_ImmediatePriority
                             Task_flushSyncCallbackQueueImpl
           in s\<lparr>immediateQueueCallbackNode := Some node\<rparr>)
      | Some queue \<Rightarrow>
          s\<lparr>callbackArrays := (callbackArrays s)(queue := callbackArrays s queue @ [syncCallback])\<rparr>)"

text \<open>
  The \<open>catch\<close> block of \<open>flushSyncCallbackQueueImpl\<close>, entered with the loop index \<open>i\<close> at
  which a callback threw, followed by the \<open>finally\<close> block.
\<close>

definition catch_finally :: "nat \<Rightarrow> SchedulerState \<Rightarrow> SchedulerState" where
  "catch_finally i s =
     (let s = (case syncQueue s of
                 None \<Rightarrow> s
               | Some remaining \<Rightarrow>
                   (let (sliced, s) = new_array s (drop (i + 1) (callbackArrays s remaining))
                    in s\<lparr>syncQueue := Some sliced\<rparr>));
          (node, s) = Scheduler_scheduleCallback s Scheduler_ImmediatePriority
                        Task_flushSyncCallbackQueue
      in s\<lparr>isFlushingSyncQueue := False\<rparr>)"

text \<open>
  The functions of the module call each other through the callbacks:
  \<open>flushSyncCallbackQueue\<close> calls \<open>flushSyncCallbackQueueImpl\<close>, whose loop invokes the
  callbacks, and a callback may call \<open>flushSyncCallbackQueue\<close>. They are one recursive
  function of the piece of code that runs: one of the two functions; the \<open>for\<close> loop of
  \<open>flushSyncCallbackQueueImpl\<close> from the test of the index \<open>i\<close>, with the local \<open>queue\<close>,
  to the end of the function; or the \<open>do\<close> loop that invokes a callback and then its
  continuations. The result is \<open>None\<close> when the code does not return; otherwise it is the
  exception that leaves the code, if there is one, and the state.
\<close>

datatype SchedulerCall =
  Enter_flushSyncCallbackQueue
  | Enter_flushSyncCallbackQueueImpl
  | Loop_from ref nat
  | Invoke SchedulerCallback

partial_function (option) run ::
  "SchedulerCall \<Rightarrow> SchedulerState \<Rightarrow> (error option \<times> SchedulerState) option" where
  "run call s =
     (case call of
        Enter_flushSyncCallbackQueue \<Rightarrow>
          (case immediateQueueCallbackNode s of
             None \<Rightarrow> run Enter_flushSyncCallbackQueueImpl s
           | Some node \<Rightarrow>
               run Enter_flushSyncCallbackQueueImpl
                 (Scheduler_cancelCallback (s\<lparr>immediateQueueCallbackNode := None\<rparr>) node))
      | Enter_flushSyncCallbackQueueImpl \<Rightarrow>
          (case syncQueue s of
             None \<Rightarrow> Some (None, s)
           | Some queue \<Rightarrow>
               if \<not> isFlushingSyncQueue s
               then run (Loop_from queue 0) (s\<lparr>isFlushingSyncQueue := True\<rparr>)
               else Some (None, s))
      | Loop_from queue i \<Rightarrow>
          if i < length (callbackArrays s queue) then
            Option.bind (run (Invoke (callbackArrays s queue ! i)) s) (\<lambda>(thrown, s).
              case thrown of
                None \<Rightarrow> run (Loop_from queue (Suc i)) s
              | Some e \<Rightarrow> Some (Some e, catch_finally i s))
          else Some (None, s\<lparr>syncQueue := None, isFlushingSyncQueue := False\<rparr>)
      | Invoke invoked \<Rightarrow>
          (case invoked of
             Return_null \<Rightarrow> Some (None, s)
           | Return_continuation continuation \<Rightarrow> run (Invoke continuation) s
           | Throw e \<Rightarrow> Some (Some e, s)
           | Call_scheduleSyncCallback syncCallback rest \<Rightarrow>
               run (Invoke rest) (scheduleSyncCallback syncCallback s)
           | Call_flushSyncCallbackQueue rest \<Rightarrow>
               Option.bind (run Enter_flushSyncCallbackQueue s) (\<lambda>(thrown, s).
                 case thrown of
                   None \<Rightarrow> run (Invoke rest) s
                 | Some e \<Rightarrow> Some (Some e, s))))"

declare run.simps [code]

definition flushSyncCallbackQueueImpl ::
  "SchedulerState \<Rightarrow> (error option \<times> SchedulerState) option" where
  "flushSyncCallbackQueueImpl s = run Enter_flushSyncCallbackQueueImpl s"

definition flushSyncCallbackQueue ::
  "SchedulerState \<Rightarrow> (error option \<times> SchedulerState) option" where
  "flushSyncCallbackQueue s = run Enter_flushSyncCallbackQueue s"

section \<open>Notions used to state and prove the properties\<close>

text \<open>
  The \<open>next\<close> pointer of an update object.
\<close>

definition nx :: "World \<Rightarrow> ref \<Rightarrow> ref option" where
  "nx w r = next_update (updates w r)"

text \<open>
  \<open>links n a bs e\<close>: following the pointers \<open>n\<close> from \<open>a\<close> visits the references \<open>bs\<close> in
  order, and the pointer of the last one visited is \<open>e\<close>.
\<close>

primrec links :: "(ref \<Rightarrow> ref option) \<Rightarrow> ref \<Rightarrow> ref list \<Rightarrow> ref option \<Rightarrow> bool" where
  "links n a [] e = (n a = e)"
| "links n a (b # bs) e = (n a = Some b \<and> links n b bs e)"

text \<open>
  A circular list of updates kept by the pointer \<open>l\<close> to its last element: the references
  \<open>as\<close>, oldest first, are distinct, the last one is \<open>l\<close>, each points to the next and the
  last points back to the first.
\<close>

fun circular :: "(ref \<Rightarrow> ref option) \<Rightarrow> ref \<Rightarrow> ref list \<Rightarrow> bool" where
  "circular n l [] = False"
| "circular n l (a # as) = (distinct (a # as) \<and> last (a # as) = l \<and> links n a as (Some a))"

text \<open>
  The pending updates of a shared queue, oldest first: none when \<open>shared.pending\<close> is
  \<open>null\<close>, and otherwise the circular list that \<open>shared.pending\<close> keeps.
\<close>

definition pending_list :: "World \<Rightarrow> ref \<Rightarrow> ref list \<Rightarrow> bool" where
  "pending_list w s as =
     (case pending (sharedQueues w s) of
        None \<Rightarrow> as = []
      | Some l \<Rightarrow> circular (nx w) l as)"

text \<open>
  An update without its \<open>next\<close> pointer, to compare an update with its clone.
\<close>

definition content :: "Update \<Rightarrow> Update" where
  "content u = u\<lparr>next_update := None\<rparr>"

text \<open>
  The partial state of an update: its payload, or the result of calling a function payload.
\<close>

definition payload_result :: "Payload \<Rightarrow> jsval \<Rightarrow> jsval \<Rightarrow> jsval \<Rightarrow> jsval" where
  "payload_result p instance prevState nextProps =
     (case p of Function f \<Rightarrow> f instance prevState nextProps | Value v \<Rightarrow> v)"

text \<open>
  The state that \<open>getStateFromUpdate\<close> returns, as a function of the tag and the payload
  of the update only (lemma \<open>snd_getStateFromUpdate\<close> below).
\<close>

definition reduce_state ::
  "jsval \<Rightarrow> jsval \<Rightarrow> UpdateTag \<Rightarrow> Payload \<Rightarrow> jsval \<Rightarrow> jsval" where
  "reduce_state props instance t p prevState =
     (case t of
        ReplaceState \<Rightarrow> payload_result p instance prevState props
      | ForceUpdate \<Rightarrow> prevState
      | _ \<Rightarrow>
          (let partialState = payload_result p instance prevState props
           in if partialState = JNull \<or> partialState = JUndefined then prevState
              else Object_assign [] [prevState, partialState]))"

definition next_state :: "jsval \<Rightarrow> jsval \<Rightarrow> Update \<Rightarrow> jsval \<Rightarrow> jsval" where
  "next_state props instance u = reduce_state props instance (tag u) (payload u)"

text \<open>
  The loop body applied to the updates of a list in order, without following pointers.
\<close>

fun process_all ::
  "ref \<Rightarrow> ref \<Rightarrow> jsval \<Rightarrow> jsval \<Rightarrow> ExpirationTime \<Rightarrow> World \<Rightarrow> ProcessVars \<Rightarrow> ref list
     \<Rightarrow> World \<times> ProcessVars" where
  "process_all workInProgress queue props instance r w v [] = (w, v)"
| "process_all workInProgress queue props instance r w v (a # as) =
     process_all workInProgress queue props instance r
       (fst (process_update workInProgress queue props instance r w v a))
       (snd (process_update workInProgress queue props instance r w v a)) as"

text \<open>
  The clones that one pass of the loop body appends to the new base queue for the update
  \<open>u\<close>, given whether an earlier update was skipped.
\<close>

definition clone_of :: "ExpirationTime \<Rightarrow> bool \<Rightarrow> Update \<Rightarrow> Update list" where
  "clone_of r skipped u =
     (if expirationTime u < r then [content u]
      else if skipped then [content (u\<lparr>expirationTime := Sync\<rparr>)] else [])"

text \<open>
  The clones made so far occupy the references from \<open>N\<close> on, in order; each points to the
  next and the last has no \<open>next\<close> yet.
\<close>

definition chain_ok :: "nat \<Rightarrow> (ref \<Rightarrow> Update) \<Rightarrow> Update list \<Rightarrow> bool" where
  "chain_ok N h cs =
     (map (\<lambda>i. content (h i)) [N..<N + length cs] = cs \<and>
      (\<forall>i. N \<le> i \<and> i < N + length cs \<longrightarrow>
           next_update (h i) = (if Suc i < N + length cs then Some (Suc i) else None)))"

text \<open>
  The same for a world and the loop variables: every update allocated since the loop began,
  at reference \<open>N\<close>, is a clone, and \<open>newBaseQueueFirst\<close> and \<open>newBaseQueueLast\<close> point
  to the first and the last clone.
\<close>

definition clones_ok :: "nat \<Rightarrow> World \<Rightarrow> ProcessVars \<Rightarrow> Update list \<Rightarrow> bool" where
  "clones_ok N w v cs =
     (update_count w = N + length cs \<and>
      chain_ok N (updates w) cs \<and>
      newBaseQueueFirst v = (if cs = [] then None else Some N) \<and>
      newBaseQueueLast v = (if cs = [] then None else Some (N + length cs - 1)))"

text \<open>
  The list view of the loop: the clones made so far, the running state, the base state
  recorded at the first skip and the remaining expiration time.
\<close>

record AbstractVars =
  a_clones :: "Update list"
  a_state :: jsval
  a_base :: jsval
  a_time :: ExpirationTime

text \<open>One pass of the loop body in the list view.\<close>

definition abs_step ::
  "ExpirationTime \<Rightarrow> jsval \<Rightarrow> jsval \<Rightarrow> Update \<Rightarrow> AbstractVars \<Rightarrow> AbstractVars" where
  "abs_step r props instance u A =
     \<lparr>a_clones = a_clones A @ clone_of r (a_clones A \<noteq> []) u,
      a_state = (if expirationTime u < r then a_state A
                 else next_state props instance u (a_state A)),
      a_base = (if expirationTime u < r \<and> a_clones A = [] then a_state A else a_base A),
      a_time = (if expirationTime u < r then max (expirationTime u) (a_time A) else a_time A)\<rparr>"

text \<open>The list view describes a world and the loop variables.\<close>

definition abstracts :: "nat \<Rightarrow> World \<Rightarrow> ProcessVars \<Rightarrow> AbstractVars \<Rightarrow> bool" where
  "abstracts N w v A =
     (clones_ok N w v (a_clones A) \<and> newState v = a_state A \<and>
      newBaseState v = a_base A \<and> newExpirationTime v = a_time A)"

text \<open>
  The updates of the base queue, oldest first.
\<close>

definition base_list :: "World \<Rightarrow> ref \<Rightarrow> ref list \<Rightarrow> bool" where
  "base_list w q as =
     (case baseQueue (updateQueues w q) of
        None \<Rightarrow> as = []
      | Some l \<Rightarrow> circular (nx w) l as)"

text \<open>
  A well-formed queue of a fiber: the base queue holds the updates \<open>xs\<close> and the pending
  queue the updates \<open>ys\<close>, both circular lists of allocated update objects, with no
  update in both.
\<close>

definition queue_holds :: "World \<Rightarrow> ref \<Rightarrow> ref \<Rightarrow> ref list \<Rightarrow> ref list \<Rightarrow> bool" where
  "queue_holds w fiber q xs ys =
     (updateQueue (fibers w fiber) = Some q \<and>
      base_list w q xs \<and>
      pending_list w (shared (updateQueues w q)) ys \<and>
      set xs \<inter> set ys = {} \<and>
      (\<forall>a \<in> set (xs @ ys). a < update_count w))"

text \<open>
  The loop variables on entry to the loop.
\<close>

definition initial_vars :: "World \<Rightarrow> ref \<Rightarrow> ref \<Rightarrow> ProcessVars" where
  "initial_vars w queue baseLast =
     \<lparr>baseQueue_var = baseLast, newState = baseState (updateQueues w queue),
      newExpirationTime = NoWork, newBaseState = JNull,
      newBaseQueueFirst = None, newBaseQueueLast = None\<rparr>"

text \<open>
  The updates, without their pointers, behind a list of references.
\<close>

definition queue_content :: "World \<Rightarrow> ref list \<Rightarrow> Update list" where
  "queue_content w as = map (\<lambda>a. content (updates w a)) as"

text \<open>The list view at the end of the loop over the updates \<open>us\<close>.\<close>

definition abs_run ::
  "ExpirationTime \<Rightarrow> jsval \<Rightarrow> jsval \<Rightarrow> jsval \<Rightarrow> Update list \<Rightarrow> AbstractVars" where
  "abs_run r props instance base us =
     fold (abs_step r props instance) us
       \<lparr>a_clones = [], a_state = base, a_base = JNull, a_time = NoWork\<rparr>"

text \<open>
  The clone that the new base queue keeps for an update at or behind the first skipped
  one: a skipped update keeps its expiration time, an applied one is stamped \<open>Sync\<close>.
\<close>

definition rebase_clone :: "ExpirationTime \<Rightarrow> Update \<Rightarrow> Update" where
  "rebase_clone r u =
     content (if expirationTime u < r then u else u\<lparr>expirationTime := Sync\<rparr>)"

text \<open>
  An object has every key once; the other values have no properties.
\<close>

definition distinct_keys :: "jsval \<Rightarrow> bool" where
  "distinct_keys v = distinct (map fst (own_properties v))"

text \<open>What a sequence of passes keeps true, for a final render expiration time \<open>rf\<close>.\<close>

definition replays ::
  "jsval \<Rightarrow> jsval \<Rightarrow> ExpirationTime \<Rightarrow> jsval \<Rightarrow> World \<Rightarrow> ref \<Rightarrow> ref \<Rightarrow> bool" where
  "replays props inst rf final w fiber q =
     (\<exists>xs ys. queue_holds w fiber q xs ys \<and>
        fold (next_state props inst) (queue_content w (xs @ ys)) (baseState (updateQueues w q)) =
          final \<and>
        (\<forall>u \<in> set (queue_content w (xs @ ys)). rf \<le> expirationTime u) \<and>
        (xs @ ys = [] \<longrightarrow> memoizedState (fibers w fiber) = final) \<and>
        (xs @ ys \<noteq> [] \<longrightarrow> rf \<le> Sync))"

text \<open>
  The elements of the effects array of a queue; none when \<open>effects\<close> is \<open>null\<close>.
\<close>

definition effects_list :: "World \<Rightarrow> ref \<Rightarrow> ref list" where
  "effects_list w q = (case effects (updateQueues w q) of None \<Rightarrow> [] | Some a \<Rightarrow> arrays w a)"

text \<open>
  The trace event of calling the callback of an update, as it stands in a world.
\<close>

definition call_event :: "World \<Rightarrow> jsval \<Rightarrow> ref \<Rightarrow> event" where
  "call_event w context r =
     (case callback (updates w r) of
        Some (Fn name thrown) \<Rightarrow> CallbackCalled name context
      | _ \<Rightarrow> CallbackCalled 0 context)"

text \<open>
  What a commit does between two worlds: it calls the callbacks of the distinct updates
  \<open>called\<close> of the effects array, in order, each a function before and \<open>null\<close> after, and
  changes no update otherwise than by setting its callback to \<open>null\<close>.
\<close>

definition commit_calls :: "World \<Rightarrow> World \<Rightarrow> jsval \<Rightarrow> ref list \<Rightarrow> ref list \<Rightarrow> bool" where
  "commit_calls w w' context es called =
     (trace w' = trace w @ map (call_event w context) called \<and>
      distinct called \<and> set called \<subseteq> set es \<and>
      (\<forall>r \<in> set called. (\<exists>name thrown. callback (updates w r) = Some (Fn name thrown)) \<and>
         callback (updates w' r) = None) \<and>
      (\<forall>r. updates w' r = updates w r \<or>
           (r \<in> set es \<and> updates w' r = (updates w r)\<lparr>callback := None\<rparr>)))"

subsection \<open>Callbacks of the synchronous queue\<close>

text \<open>
  How a callback ends once its continuations have run, the callbacks that it and its
  continuations pass to \<open>scheduleSyncCallback\<close>, in order, and whether it or one of its
  continuations calls \<open>flushSyncCallbackQueue\<close>. The three are read off the callback; lemma
  \<open>run_Invoke_locked\<close> shows that they describe the callback invoked by a flush.
\<close>

fun outcome :: "SchedulerCallback \<Rightarrow> error option" where
  "outcome Return_null = None"
| "outcome (Return_continuation continuation) = outcome continuation"
| "outcome (Throw e) = Some e"
| "outcome (Call_scheduleSyncCallback syncCallback rest) = outcome rest"
| "outcome (Call_flushSyncCallbackQueue rest) = outcome rest"

fun pushes :: "SchedulerCallback \<Rightarrow> SchedulerCallback list" where
  "pushes Return_null = []"
| "pushes (Return_continuation continuation) = pushes continuation"
| "pushes (Throw e) = []"
| "pushes (Call_scheduleSyncCallback syncCallback rest) = syncCallback # pushes rest"
| "pushes (Call_flushSyncCallbackQueue rest) = pushes rest"

fun flushes :: "SchedulerCallback \<Rightarrow> bool" where
  "flushes Return_null = False"
| "flushes (Return_continuation continuation) = flushes continuation"
| "flushes (Throw e) = False"
| "flushes (Call_scheduleSyncCallback syncCallback rest) = flushes rest"
| "flushes (Call_flushSyncCallbackQueue rest) = True"

text \<open>
  The state once the node that \<open>scheduleSyncCallback\<close> left with the external scheduler
  has been cancelled and forgotten, which is what the first statement of
  \<open>flushSyncCallbackQueue\<close> does (lemma \<open>run_Enter_flushSyncCallbackQueue\<close>).
\<close>

definition cancel_node :: "SchedulerState \<Rightarrow> SchedulerState" where
  "cancel_node s =
     (case immediateQueueCallbackNode s of
        None \<Rightarrow> s
      | Some node \<Rightarrow> s\<lparr>immediateQueueCallbackNode := None, cancelled := cancelled s @ [node]\<rparr>)"

definition cancel_if :: "bool \<Rightarrow> SchedulerState \<Rightarrow> SchedulerState" where
  "cancel_if b s = (if b then cancel_node s else s)"

subsection \<open>Examples\<close>

text \<open>
  Concrete worlds for the examples: a fiber whose queue has just been initialised over
  the state \<open>{}\<close>, two updates that set \<open>a\<close> at expiration time 2 and \<open>b\<close> at expiration
  time 1, a world in which every update carries \<open>{b: 3, c: 4}\<close>, an effects array that
  holds one update twice, and a synchronous queue of three callbacks: the first calls
  \<open>flushSyncCallbackQueue\<close>, the continuation of the second schedules a callback and
  throws, the third schedules a callback.
\<close>

definition set_a :: Update where
  "set_a = \<lparr>expirationTime = 2, suspenseConfig = None, tag = UpdateState,
            payload = Value (JObject [(''a'', JNum 1)]), callback = None, next_update = None\<rparr>"

definition set_b :: Update where
  "set_b = \<lparr>expirationTime = 1, suspenseConfig = None, tag = UpdateState,
            payload = Value (JObject [(''b'', JNum 2)]), callback = None, next_update = None\<rparr>"

definition mounted :: World where
  "mounted = initializeUpdateQueue
     (empty_world\<lparr>fibers := (fibers empty_world)(0 := (fibers empty_world 0)
        \<lparr>memoizedState := JObject []\<rparr>)\<rparr>) 0"

definition merge_example :: World where
  "merge_example =
     empty_world\<lparr>updates := (\<lambda>r. \<lparr>expirationTime = Sync, suspenseConfig = None,
        tag = UpdateState, payload = Value (JObject [(''b'', JNum 3), (''c'', JNum 4)]),
        callback = None, next_update = Some 0\<rparr>)\<rparr>"

definition flush_example :: SchedulerState where
  "flush_example =
     \<lparr>callbackArrays = (\<lambda>a. [])
        (0 := [Call_flushSyncCallbackQueue Return_null,
               Return_continuation (Call_scheduleSyncCallback Return_null (Throw (Thrown 1))),
               Call_scheduleSyncCallback Return_null Return_null]),
      callbackArray_count = 1,
      syncQueue = Some 0,
      immediateQueueCallbackNode = Some 0,
      isFlushingSyncQueue = False,
      scheduled = [(Scheduler_ImmediatePriority, Task_flushSyncCallbackQueueImpl)],
      cancelled = []\<rparr>"

definition commit_example :: World where
  "commit_example =
     empty_world
       \<lparr>updates := (\<lambda>r. \<lparr>expirationTime = Sync, suspenseConfig = None, tag = UpdateState,
           payload = Value JNull, callback = Some (Fn (7 + r) None), next_update = None\<rparr>),
        update_count := 2,
        updateQueues := (\<lambda>q. \<lparr>baseState = JNull, baseQueue = None, shared = 0,
           effects = Some 0\<rparr>),
        arrays := (\<lambda>a. [0, 1, 0])\<rparr>"

section \<open>Properties of the expiration clock\<close>

lemmas expiration_defs =
  MAX_SIGNED_31_BIT_INT_def NoWork_def Sync_def Batched_def UNIT_SIZE_def MAGIC_NUMBER_OFFSET_def

lemma truncate_quotient_nonneg:
  "0 \<le> a \<Longrightarrow> 0 < b \<Longrightarrow> truncate_quotient a b = a div b"
  by (cases "a = 0") (simp_all add: truncate_quotient_def)

lemma ToInt32_small: "0 \<le> n \<Longrightarrow> n < 2147483648 \<Longrightarrow> ToInt32 n = n"
  by (simp add: ToInt32_def)

lemma msToExpirationTime_in_range:
  "0 \<le> ms \<Longrightarrow> ms < 21474836480 \<Longrightarrow>
   msToExpirationTime ms = MAGIC_NUMBER_OFFSET - ms div 10"
  by (simp add: msToExpirationTime_def truncate_quotient_nonneg ToInt32_small UNIT_SIZE_def)

lemma computeInteractiveExpiration_of_ms:
  assumes "0 \<le> ms" "ms < 21474836480"
  shows "computeInteractiveExpiration dev (msToExpirationTime ms) =
     MAGIC_NUMBER_OFFSET - ((ms + HIGH_PRIORITY_EXPIRATION dev) div 100 + 1) * 10"
proof -
  let ?w = "HIGH_PRIORITY_EXPIRATION dev"
  have w: "?w = 150 \<or> ?w = 500" by (simp add: HIGH_PRIORITY_EXPIRATION_def)
  have w10: "0 \<le> ?w div 10" "?w div 10 \<le> 50"
    using w by auto
  let ?num = "ms div 10 + ?w div 10"
  have n0: "0 \<le> ?num" "?num < 21474836480" using assms w10 by linarith+
  have q: "truncate_quotient ?num 10 = ?num div 10" using n0 by (simp add: truncate_quotient_nonneg)
  have q2: "?num div 10 = (ms + ?w) div 100"
    using w by (auto simp: zdiv_zmult2_eq[symmetric])
  have "0 \<le> ?num div 10" "?num div 10 < 2147483648" using n0 by linarith+
  then have "ToInt32 (?num div 10) = ?num div 10" by (simp add: ToInt32_small)
  then have t: "ToInt32 ((ms + ?w) div 100) = (ms + ?w) div 100" by (simp only: q2)
  have "computeInteractiveExpiration dev (msToExpirationTime ms) =
      MAGIC_NUMBER_OFFSET - (ToInt32 (truncate_quotient ?num 10) + 1) * 10"
    using assms
    by (simp add: msToExpirationTime_in_range computeInteractiveExpiration_def
        computeExpirationBucket_def ceiling_js_def HIGH_PRIORITY_BATCH_SIZE_def UNIT_SIZE_def)
  then show ?thesis by (simp only: q t q2)
qed

text \<open>
  C8 (as stated, refuted). The claim asks for a strictly decreasing conversion whose result
  is below the reserved band for every non-negative \<open>ms\<close>. Two times inside one unit of
  ten milliseconds get the same expiration time, and a time of \<open>10 * 2 ^ 31\<close> ms wraps in
  \<open>| 0\<close> and lands above \<open>Sync\<close>.
\<close>

theorem msToExpirationTime_strict_counterexample:
  "msToExpirationTime 0 = msToExpirationTime 5 \<and> Sync < msToExpirationTime 21474836480"
  by (simp add: msToExpirationTime_def ToInt32_def truncate_quotient_def expiration_defs)

text \<open>
  C8 (amended). On \<open>0 \<le> ms < 10 * 2 ^ 31\<close>, where \<open>| 0\<close> does not wrap,
  \<open>msToExpirationTime\<close> is \<open>MAGIC_NUMBER_OFFSET - ms div 10\<close>: it never increases with
  \<open>ms\<close>, it strictly decreases between two times in different units of ten milliseconds,
  and its result is at most \<open>MAGIC_NUMBER_OFFSET\<close>, strictly below \<open>Batched\<close> and \<open>Sync\<close>.
\<close>

theorem msToExpirationTime_monotone_below_band:
  assumes "0 \<le> ms1" "ms1 \<le> ms2" "ms2 < 21474836480"
  shows "msToExpirationTime ms2 \<le> msToExpirationTime ms1 \<and>
         (ms1 div 10 < ms2 div 10 \<longrightarrow> msToExpirationTime ms2 < msToExpirationTime ms1) \<and>
         msToExpirationTime ms1 \<le> MAGIC_NUMBER_OFFSET \<and>
         msToExpirationTime ms1 < Batched \<and> msToExpirationTime ms1 < Sync"
proof -
  have e1: "msToExpirationTime ms1 = MAGIC_NUMBER_OFFSET - ms1 div 10"
    using assms by (simp add: msToExpirationTime_in_range)
  have e2: "msToExpirationTime ms2 = MAGIC_NUMBER_OFFSET - ms2 div 10"
    using assms by (simp add: msToExpirationTime_in_range)
  have m: "ms1 div 10 \<le> ms2 div 10" using assms(2) by (rule zdiv_mono1) simp
  have p: "0 \<le> ms1 div 10" using assms(1) by simp
  show ?thesis using m p by (simp add: e1 e2 MAGIC_NUMBER_OFFSET_def Batched_def)
qed

theorem msToExpirationTime_monotone_below_band_witness:
  "msToExpirationTime 1009 \<le> msToExpirationTime 1000 \<and>
   msToExpirationTime 1010 < msToExpirationTime 1000 \<and>
   msToExpirationTime 1000 < Batched"
  using msToExpirationTime_monotone_below_band [of 1000 1009]
        msToExpirationTime_monotone_below_band [of 1000 1010]
  by simp

text \<open>
  C9. Two clock readings five milliseconds apart, converted by \<open>msToExpirationTime\<close> and
  passed to \<open>computeInteractiveExpiration\<close>, give the same expiration time when
  \<open>ms + window\<close> and \<open>ms + 5 + window\<close> lie in the same bucket of 100 ms, and different
  expiration times when they lie on the two sides of a bucket boundary. The window is
  \<open>HIGH_PRIORITY_EXPIRATION\<close>, 150 ms or 500 ms with \<open>__DEV__\<close>.
\<close>

theorem computeInteractiveExpiration_bucketing:
  assumes "0 \<le> ms" "ms + 5 < 21474836480"
  shows "((ms + HIGH_PRIORITY_EXPIRATION dev) div HIGH_PRIORITY_BATCH_SIZE =
          (ms + 5 + HIGH_PRIORITY_EXPIRATION dev) div HIGH_PRIORITY_BATCH_SIZE \<longrightarrow>
          computeInteractiveExpiration dev (msToExpirationTime ms) =
          computeInteractiveExpiration dev (msToExpirationTime (ms + 5))) \<and>
         ((ms + HIGH_PRIORITY_EXPIRATION dev) div HIGH_PRIORITY_BATCH_SIZE \<noteq>
          (ms + 5 + HIGH_PRIORITY_EXPIRATION dev) div HIGH_PRIORITY_BATCH_SIZE \<longrightarrow>
          computeInteractiveExpiration dev (msToExpirationTime ms) \<noteq>
          computeInteractiveExpiration dev (msToExpirationTime (ms + 5)))"
proof -
  have a: "0 \<le> ms" "ms < 21474836480" "0 \<le> ms + 5" "ms + 5 < 21474836480"
    using assms by simp_all
  show ?thesis
    by (simp add: computeInteractiveExpiration_of_ms [OF a(1,2)]
        computeInteractiveExpiration_of_ms [OF a(3,4)] HIGH_PRIORITY_BATCH_SIZE_def)
qed

theorem computeInteractiveExpiration_bucketing_witness:
  "computeInteractiveExpiration False (msToExpirationTime 1000) =
     computeInteractiveExpiration False (msToExpirationTime 1005) \<and>
   computeInteractiveExpiration False (msToExpirationTime 1045) \<noteq>
     computeInteractiveExpiration False (msToExpirationTime 1050)"
  using computeInteractiveExpiration_bucketing [of 1000 False]
        computeInteractiveExpiration_bucketing [of 1045 False]
  by (simp add: HIGH_PRIORITY_EXPIRATION_def HIGH_PRIORITY_BATCH_SIZE_def)

section \<open>Properties of the root scheduling state\<close>

text \<open>
  C6 (as stated, refuted). With a suspended range from 3 to 5 and an update at 7, the range
  is cleared, but \<open>nextKnownPendingLevel\<close> ends as 7, not \<open>NoWork\<close>: the last statement of
  \<open>markRootUpdatedAtTime\<close> raises it again after the clearing assignment.
\<close>

theorem markRootUpdatedAtTime_counterexample:
  "firstSuspendedTime \<lparr>firstPendingTime = 0, firstSuspendedTime = 5, lastSuspendedTime = 3,
      nextKnownPendingLevel = 2, lastPingedTime = 0, lastExpiredTime = 0\<rparr> \<noteq> NoWork \<and>
   nextKnownPendingLevel (markRootUpdatedAtTime
     \<lparr>firstPendingTime = 0, firstSuspendedTime = 5, lastSuspendedTime = 3,
      nextKnownPendingLevel = 2, lastPingedTime = 0, lastExpiredTime = 0\<rparr> 7) = 7 \<and>
   (7 :: int) \<noteq> NoWork"
  by (simp add: markRootUpdatedAtTime_def NoWork_def)

text \<open>
  C6 (amended). For a root whose suspended range is not empty and a time \<open>t\<close> at or above
  \<open>firstSuspendedTime\<close>, after \<open>markRootUpdatedAtTime\<close>: \<open>firstPendingTime\<close> is the larger
  of its old value and \<open>t\<close>, \<open>firstSuspendedTime\<close> and \<open>lastSuspendedTime\<close> are \<open>NoWork\<close>,
  and \<open>nextKnownPendingLevel\<close> is \<open>t\<close> when \<open>t\<close> is above \<open>NoWork\<close> and \<open>NoWork\<close> otherwise.
\<close>

theorem markRootUpdatedAtTime_unsuspends:
  assumes "firstSuspendedTime root \<noteq> NoWork" "firstSuspendedTime root \<le> t"
  shows "firstPendingTime (markRootUpdatedAtTime root t) = max (firstPendingTime root) t \<and>
         firstSuspendedTime (markRootUpdatedAtTime root t) = NoWork \<and>
         lastSuspendedTime (markRootUpdatedAtTime root t) = NoWork \<and>
         nextKnownPendingLevel (markRootUpdatedAtTime root t) = max NoWork t"
  using assms by (simp add: markRootUpdatedAtTime_def Let_def max_def)

theorem markRootUpdatedAtTime_unsuspends_witness:
  "firstPendingTime (markRootUpdatedAtTime
     \<lparr>firstPendingTime = 6, firstSuspendedTime = 5, lastSuspendedTime = 3,
      nextKnownPendingLevel = 2, lastPingedTime = 0, lastExpiredTime = 0\<rparr> 7) = 7 \<and>
   firstSuspendedTime (markRootUpdatedAtTime
     \<lparr>firstPendingTime = 6, firstSuspendedTime = 5, lastSuspendedTime = 3,
      nextKnownPendingLevel = 2, lastPingedTime = 0, lastExpiredTime = 0\<rparr> 7) = NoWork \<and>
   nextKnownPendingLevel (markRootUpdatedAtTime
     \<lparr>firstPendingTime = 6, firstSuspendedTime = 5, lastSuspendedTime = 3,
      nextKnownPendingLevel = 2, lastPingedTime = 0, lastExpiredTime = 0\<rparr> 7) = 7"
  using markRootUpdatedAtTime_unsuspends [of
     "\<lparr>firstPendingTime = 6, firstSuspendedTime = 5, lastSuspendedTime = 3,
      nextKnownPendingLevel = 2, lastPingedTime = 0, lastExpiredTime = 0\<rparr>" 7]
  by (simp add: NoWork_def)

text \<open>
  C7 (as stated, refuted). With \<open>lastExpiredTime = 5\<close> and \<open>t = 3\<close> the field becomes 3,
  the smaller of the two, where the claim asks for the larger.
\<close>

theorem markRootExpiredAtTime_counterexample:
  "lastExpiredTime \<lparr>firstPendingTime = 0, firstSuspendedTime = 0, lastSuspendedTime = 0,
      nextKnownPendingLevel = 0, lastPingedTime = 0, lastExpiredTime = 5\<rparr> \<noteq> NoWork \<and>
   lastExpiredTime (markRootExpiredAtTime
     \<lparr>firstPendingTime = 0, firstSuspendedTime = 0, lastSuspendedTime = 0,
      nextKnownPendingLevel = 0, lastPingedTime = 0, lastExpiredTime = 5\<rparr> 3) = 3 \<and>
   max (5 :: int) 3 = 5"
  by (simp add: markRootExpiredAtTime_def NoWork_def)

text \<open>
  C7 (amended). After \<open>markRootExpiredAtTime root t\<close>: if \<open>lastExpiredTime\<close> was \<open>NoWork\<close>
  it is \<open>t\<close>; otherwise it is the numerically smaller, that is the lower-priority, of its
  old value and \<open>t\<close>.
\<close>

theorem markRootExpiredAtTime_keeps_lowest:
  "lastExpiredTime (markRootExpiredAtTime root t) =
     (if lastExpiredTime root = NoWork then t else min (lastExpiredTime root) t)"
  by (simp add: markRootExpiredAtTime_def Let_def min_def)

theorem markRootExpiredAtTime_keeps_lowest_witness:
  "lastExpiredTime (markRootExpiredAtTime
     \<lparr>firstPendingTime = 0, firstSuspendedTime = 0, lastSuspendedTime = 0,
      nextKnownPendingLevel = 0, lastPingedTime = 0, lastExpiredTime = 5\<rparr> 9) = 5"
  using markRootExpiredAtTime_keeps_lowest [of
     "\<lparr>firstPendingTime = 0, firstSuspendedTime = 0, lastSuspendedTime = 0,
      nextKnownPendingLevel = 0, lastPingedTime = 0, lastExpiredTime = 5\<rparr>" 9]
  by (simp add: NoWork_def)

section \<open>Properties of the update queue\<close>

lemma links_append:
  "links n a (bs @ c # cs) e = (links n a bs (Some c) \<and> links n c cs e)"
  by (induction bs arbitrary: a) auto

lemma links_snoc: "links n a (bs @ [c]) e = (links n a bs (Some c) \<and> n c = e)"
  by (simp add: links_append)

lemma links_cong:
  "(\<And>x. x \<in> set (a # bs) \<Longrightarrow> n x = n' x) \<Longrightarrow> links n a bs e = links n' a bs e"
  by (induction bs arbitrary: a) auto

lemma links_upd_last:
  "distinct (a # bs) \<Longrightarrow> links n a bs e \<Longrightarrow> links (n(last (a # bs) := e')) a bs e'"
  by (induction bs arbitrary: a) auto

lemma set_next_sel [simp]:
  "updates (set_next w r n) = (updates w)(r := (updates w r)\<lparr>next_update := n\<rparr>)"
  "update_count (set_next w r n) = update_count w"
  "sharedQueues (set_next w r n) = sharedQueues w"
  "sharedQueue_count (set_next w r n) = sharedQueue_count w"
  "updateQueues (set_next w r n) = updateQueues w"
  "updateQueue_count (set_next w r n) = updateQueue_count w"
  "arrays (set_next w r n) = arrays w"
  "array_count (set_next w r n) = array_count w"
  "fibers (set_next w r n) = fibers w"
  "hasForceUpdate (set_next w r n) = hasForceUpdate w"
  "trace (set_next w r n) = trace w"
  by (simp_all add: set_next_def)

lemma set_pending_sel [simp]:
  "updates (set_pending w s p) = updates w"
  "update_count (set_pending w s p) = update_count w"
  "sharedQueues (set_pending w s p) = (sharedQueues w)(s := \<lparr>pending = p\<rparr>)"
  "sharedQueue_count (set_pending w s p) = sharedQueue_count w"
  "updateQueues (set_pending w s p) = updateQueues w"
  "updateQueue_count (set_pending w s p) = updateQueue_count w"
  "arrays (set_pending w s p) = arrays w"
  "array_count (set_pending w s p) = array_count w"
  "fibers (set_pending w s p) = fibers w"
  "hasForceUpdate (set_pending w s p) = hasForceUpdate w"
  "trace (set_pending w s p) = trace w"
  by (simp_all add: set_pending_def)

lemma nx_set_next [simp]: "nx (set_next w r n) = (nx w)(r := n)"
  by (auto simp: nx_def set_next_def)

lemma nx_set_pending [simp]: "nx (set_pending w s p) = nx w"
  by (auto simp: nx_def set_pending_def)

lemma links_last:
  "links n a bs e \<Longrightarrow> n (last (a # bs)) = e"
  by (induction bs arbitrary: a) auto

lemma circular_enqueue:
  assumes c: "circular n l as" and u: "u \<notin> set as"
  shows "circular (n(u := n l, l := Some u)) u (as @ [u])"
proof (cases as)
  case Nil
  with c show ?thesis by simp
next
  case (Cons a bs)
  from c Cons have d: "distinct (a # bs)" and l: "last (a # bs) = l" and k: "links n a bs (Some a)"
    by simp_all
  from u Cons have ua: "u \<noteq> a" "u \<notin> set bs" by auto
  have lu: "l \<noteq> u" using l ua d by (metis last_in_set list.distinct(1) set_ConsD)
  have nl: "n l = Some a" using links_last [OF k] l by simp
  have 1: "links (n(l := Some u)) a bs (Some u)"
    using links_upd_last [OF d k, of "Some u"] l by simp
  have "links (n(u := n l, l := Some u)) a bs (Some u) = links (n(l := Some u)) a bs (Some u)"
    by (rule links_cong) (use ua in auto)
  with 1 have 2: "links (n(u := n l, l := Some u)) a bs (Some u)" by simp
  have 3: "(n(u := n l, l := Some u)) u = Some a" using lu nl by simp
  show ?thesis using d ua 2 3 by (simp add: Cons links_snoc)
qed

lemma enqueueUpdate_pending_list:
  assumes q: "updateQueue (fibers w fiber) = Some q"
    and p: "pending_list w (shared (updateQueues w q)) as"
    and u: "update \<notin> set as"
  shows "pending_list (enqueueUpdate w fiber update) (shared (updateQueues w q)) (as @ [update])"
proof (cases "pending (sharedQueues w (shared (updateQueues w q)))")
  case None
  with p have "as = []" by (simp add: pending_list_def)
  then show ?thesis using q None
    by (simp add: enqueueUpdate_def pending_list_def Let_def)
next
  case (Some l)
  with p have c: "circular (nx w) l as" by (simp add: pending_list_def)
  have "nx (enqueueUpdate w fiber update) = (nx w)(update := nx w l, l := Some update)"
    using q Some by (simp add: enqueueUpdate_def Let_def) (simp add: nx_def)
  moreover have "pending (sharedQueues (enqueueUpdate w fiber update) (shared (updateQueues w q)))
      = Some update"
    using q by (simp add: enqueueUpdate_def Let_def split: option.splits)
  ultimately show ?thesis using circular_enqueue [OF c u] by (simp add: pending_list_def)
qed

lemma snd_getStateFromUpdate:
  "snd (getStateFromUpdate w workInProgress queue update prevState props instance) =
     next_state props instance (updates w update) prevState"
  by (simp add: getStateFromUpdate_def next_state_def reduce_state_def payload_result_def Let_def
      split: UpdateTag.splits Payload.splits)

lemma fst_getStateFromUpdate_sel [simp]:
  "updates (fst (getStateFromUpdate w workInProgress queue update prevState props instance)) = updates w"
  "update_count (fst (getStateFromUpdate w workInProgress queue update prevState props instance)) = update_count w"
  "sharedQueues (fst (getStateFromUpdate w workInProgress queue update prevState props instance)) = sharedQueues w"
  "sharedQueue_count (fst (getStateFromUpdate w workInProgress queue update prevState props instance)) = sharedQueue_count w"
  "updateQueues (fst (getStateFromUpdate w workInProgress queue update prevState props instance)) = updateQueues w"
  "updateQueue_count (fst (getStateFromUpdate w workInProgress queue update prevState props instance)) = updateQueue_count w"
  "arrays (fst (getStateFromUpdate w workInProgress queue update prevState props instance)) = arrays w"
  "array_count (fst (getStateFromUpdate w workInProgress queue update prevState props instance)) = array_count w"
  "trace (fst (getStateFromUpdate w workInProgress queue update prevState props instance)) = trace w"
  "updateQueue (fibers (fst (getStateFromUpdate w workInProgress queue update prevState props instance)) f) = updateQueue (fibers w f)"
  "alternate (fibers (fst (getStateFromUpdate w workInProgress queue update prevState props instance)) f) = alternate (fibers w f)"
  "memoizedState (fibers (fst (getStateFromUpdate w workInProgress queue update prevState props instance)) f) = memoizedState (fibers w f)"
  "expirationTime_fiber (fibers (fst (getStateFromUpdate w workInProgress queue update prevState props instance)) f) = expirationTime_fiber (fibers w f)"
  by (simp_all add: getStateFromUpdate_def Let_def split: UpdateTag.splits Payload.splits)

lemma clone_literal [simp]:
  "\<lparr>expirationTime = expirationTime u, suspenseConfig = suspenseConfig u, tag = tag u,
     payload = payload u, callback = callback u, next_update = n\<rparr> = u\<lparr>next_update := n\<rparr>"
  "\<lparr>expirationTime = e, suspenseConfig = suspenseConfig u, tag = tag u,
     payload = payload u, callback = callback u, next_update = n\<rparr> =
   u\<lparr>expirationTime := e, next_update := n\<rparr>"
  by (cases u; simp)+

lemma new_update_sel [simp]:
  "fst (new_update w u) = update_count w"
  "updates (snd (new_update w u)) = (updates w)(update_count w := u)"
  "update_count (snd (new_update w u)) = Suc (update_count w)"
  "sharedQueues (snd (new_update w u)) = sharedQueues w"
  "sharedQueue_count (snd (new_update w u)) = sharedQueue_count w"
  "updateQueues (snd (new_update w u)) = updateQueues w"
  "updateQueue_count (snd (new_update w u)) = updateQueue_count w"
  "arrays (snd (new_update w u)) = arrays w"
  "array_count (snd (new_update w u)) = array_count w"
  "fibers (snd (new_update w u)) = fibers w"
  "hasForceUpdate (snd (new_update w u)) = hasForceUpdate w"
  "trace (snd (new_update w u)) = trace w"
  by (simp_all add: new_update_def)

lemma markRenderEventTimeAndConfig_sel [simp]:
  "updates (markRenderEventTimeAndConfig w t c) = updates w"
  "update_count (markRenderEventTimeAndConfig w t c) = update_count w"
  "sharedQueues (markRenderEventTimeAndConfig w t c) = sharedQueues w"
  "sharedQueue_count (markRenderEventTimeAndConfig w t c) = sharedQueue_count w"
  "updateQueues (markRenderEventTimeAndConfig w t c) = updateQueues w"
  "updateQueue_count (markRenderEventTimeAndConfig w t c) = updateQueue_count w"
  "arrays (markRenderEventTimeAndConfig w t c) = arrays w"
  "array_count (markRenderEventTimeAndConfig w t c) = array_count w"
  "fibers (markRenderEventTimeAndConfig w t c) = fibers w"
  "hasForceUpdate (markRenderEventTimeAndConfig w t c) = hasForceUpdate w"
  by (simp_all add: markRenderEventTimeAndConfig_def)

lemma markUnprocessedUpdateTime_sel [simp]:
  "updates (markUnprocessedUpdateTime w t) = updates w"
  "update_count (markUnprocessedUpdateTime w t) = update_count w"
  "sharedQueues (markUnprocessedUpdateTime w t) = sharedQueues w"
  "sharedQueue_count (markUnprocessedUpdateTime w t) = sharedQueue_count w"
  "updateQueues (markUnprocessedUpdateTime w t) = updateQueues w"
  "updateQueue_count (markUnprocessedUpdateTime w t) = updateQueue_count w"
  "arrays (markUnprocessedUpdateTime w t) = arrays w"
  "array_count (markUnprocessedUpdateTime w t) = array_count w"
  "fibers (markUnprocessedUpdateTime w t) = fibers w"
  "hasForceUpdate (markUnprocessedUpdateTime w t) = hasForceUpdate w"
  by (simp_all add: markUnprocessedUpdateTime_def)

lemma next_state_simps [simp]:
  "next_state props instance (u\<lparr>next_update := n\<rparr>) = next_state props instance u"
  "next_state props instance (u\<lparr>expirationTime := e\<rparr>) = next_state props instance u"
  by (simp_all add: next_state_def)

lemma push_effect_sel [simp]:
  "updates (push_effect workInProgress queue w a) = updates w"
  "update_count (push_effect workInProgress queue w a) = update_count w"
  "sharedQueues (push_effect workInProgress queue w a) = sharedQueues w"
  "shared (updateQueues (push_effect workInProgress queue w a) q) = shared (updateQueues w q)"
  "baseState (updateQueues (push_effect workInProgress queue w a) q) = baseState (updateQueues w q)"
  "baseQueue (updateQueues (push_effect workInProgress queue w a) q) = baseQueue (updateQueues w q)"
  "updateQueue (fibers (push_effect workInProgress queue w a) f) = updateQueue (fibers w f)"
  "alternate (fibers (push_effect workInProgress queue w a) f) = alternate (fibers w f)"
  by (simp_all add: push_effect_def Let_def split: option.splits)

lemma process_update_skip:
  assumes "expirationTime (updates w a) < r"
  shows "updates (fst (process_update workInProgress queue props instance r w v a)) =
     (case newBaseQueueLast v of
            None \<Rightarrow> (updates w)(update_count w := content (updates w a))
          | Some l \<Rightarrow> (\<lambda>h. h(l := (h l)\<lparr>next_update := Some (update_count w)\<rparr>))
                        ((updates w)(update_count w := content (updates w a))))"
   "update_count (fst (process_update workInProgress queue props instance r w v a)) =
     Suc (update_count w)"
   "newState (snd (process_update workInProgress queue props instance r w v a)) = newState v"
   "newBaseState (snd (process_update workInProgress queue props instance r w v a)) =
     (if newBaseQueueLast v = None then newState v else newBaseState v)"
   "newExpirationTime (snd (process_update workInProgress queue props instance r w v a)) =
      max (expirationTime (updates w a)) (newExpirationTime v)"
   "newBaseQueueFirst (snd (process_update workInProgress queue props instance r w v a)) =
     (if newBaseQueueLast v = None then Some (update_count w) else newBaseQueueFirst v)"
   "newBaseQueueLast (snd (process_update workInProgress queue props instance r w v a)) =
      Some (update_count w)"
  using assms
  by (simp_all add: process_update_def Let_def split_def content_def max_def split: option.splits)

lemma process_update_apply_first:
  assumes "\<not> expirationTime (updates w a) < r" "newBaseQueueLast v = None"
  shows "updates (fst (process_update workInProgress queue props instance r w v a)) = updates w"
   "update_count (fst (process_update workInProgress queue props instance r w v a)) =
     update_count w"
   "newState (snd (process_update workInProgress queue props instance r w v a)) =
      next_state props instance (updates w a) (newState v)"
   "newBaseState (snd (process_update workInProgress queue props instance r w v a)) =
      newBaseState v"
   "newExpirationTime (snd (process_update workInProgress queue props instance r w v a)) =
      newExpirationTime v"
   "newBaseQueueFirst (snd (process_update workInProgress queue props instance r w v a)) =
      newBaseQueueFirst v"
   "newBaseQueueLast (snd (process_update workInProgress queue props instance r w v a)) = None"
  using assms
  by (simp_all add: process_update_def Let_def split_def snd_getStateFromUpdate)

lemma process_update_apply_rebase:
  assumes "\<not> expirationTime (updates w a) < r" "newBaseQueueLast v = Some l"
  shows "updates (fst (process_update workInProgress queue props instance r w v a)) =
     (\<lambda>h. h(l := (h l)\<lparr>next_update := Some (update_count w)\<rparr>))
        ((updates w)(update_count w := content ((updates w a)\<lparr>expirationTime := Sync\<rparr>)))"
   "update_count (fst (process_update workInProgress queue props instance r w v a)) =
     Suc (update_count w)"
   "newState (snd (process_update workInProgress queue props instance r w v a)) =
      next_state props instance (updates w a) (newState v)"
   "newBaseState (snd (process_update workInProgress queue props instance r w v a)) =
      newBaseState v"
   "newExpirationTime (snd (process_update workInProgress queue props instance r w v a)) =
      newExpirationTime v"
   "newBaseQueueFirst (snd (process_update workInProgress queue props instance r w v a)) =
      newBaseQueueFirst v"
   "newBaseQueueLast (snd (process_update workInProgress queue props instance r w v a)) =
      Some (update_count w)"
  using assms
  by (cases "a = l"; cases "a = update_count w";
      simp add: process_update_def Let_def split_def snd_getStateFromUpdate content_def)+

lemma process_update_frame [simp]:
  "sharedQueues (fst (process_update workInProgress queue props instance r w v a)) =
     sharedQueues w"
  "shared (updateQueues (fst (process_update workInProgress queue props instance r w v a)) q) =
     shared (updateQueues w q)"
  "baseState (updateQueues (fst (process_update workInProgress queue props instance r w v a)) q) =
     baseState (updateQueues w q)"
  "baseQueue (updateQueues (fst (process_update workInProgress queue props instance r w v a)) q) =
     baseQueue (updateQueues w q)"
  "updateQueue (fibers (fst (process_update workInProgress queue props instance r w v a)) f) =
     updateQueue (fibers w f)"
  "alternate (fibers (fst (process_update workInProgress queue props instance r w v a)) f) =
     alternate (fibers w f)"
  "baseQueue_var (snd (process_update workInProgress queue props instance r w v a)) =
     baseQueue_var v"
  by (simp_all add: process_update_def Let_def split_def split: option.splits)

lemma content_simps [simp]:
  "content (u\<lparr>next_update := n\<rparr>) = content u"
  "content (content u) = content u"
  "expirationTime (content u) = expirationTime u"
  "tag (content u) = tag u"
  "payload (content u) = payload u"
  "callback (content u) = callback u"
  "suspenseConfig (content u) = suspenseConfig u"
  "next_update (content u) = None"
  by (simp_all add: content_def)

lemma chain_ok_first: "chain_ok N (h(N := content c)) [content c]"
  by (simp add: chain_ok_def)

lemma chain_ok_extend:
  assumes ok: "chain_ok N h cs" and ne: "cs \<noteq> []"
  shows "chain_ok N ((h(N + length cs := content c))
            (N + length cs - 1 := ((h(N + length cs := content c)) (N + length cs - 1))
               \<lparr>next_update := Some (N + length cs)\<rparr>))
          (cs @ [content c])"
proof -
  let ?c = "N + length cs"
  let ?h = "(h(?c := content c))(?c - 1 := ((h(?c := content c)) (?c - 1))\<lparr>next_update := Some ?c\<rparr>)"
  have pos: "?c - 1 \<noteq> ?c" "?c - 1 < ?c" "N \<le> ?c - 1" "Suc (?c - 1) = ?c"
    using ne by (cases cs; simp)+
  have same: "content (?h i) = content (h i)" if "i < ?c" for i
    using that by simp
  have A: "map (\<lambda>i. content (?h i)) [N..<?c] = map (\<lambda>i. content (h i)) [N..<?c]"
    by (rule map_cong) (simp_all add: same)
  have B: "map (\<lambda>i. content (h i)) [N..<?c] = cs"
    using ok by (simp add: chain_ok_def)
  have 1: "map (\<lambda>i. content (?h i)) [N..<?c] = cs"
    by (simp only: A B)
  have 2: "content (?h ?c) = content c" using pos by simp
  have 3: "next_update (?h i) = (if Suc i < ?c + 1 then Some (Suc i) else None)"
    if bounds: "N \<le> i" "i < ?c + 1" for i
  proof -
    consider "i = ?c" | "i = ?c - 1" | "i < ?c - 1" using bounds by linarith
    then show ?thesis
    proof cases
      case 1
      then show ?thesis using pos by simp
    next
      case 2
      then show ?thesis using pos by simp
    next
      case 3
      then have lt: "i < ?c" "Suc i < ?c" "i \<noteq> ?c" "i \<noteq> ?c - 1" by linarith+
      then have "next_update (h i) = Some (Suc i)"
        using ok bounds by (simp add: chain_ok_def)
      then show ?thesis using lt by simp
    qed
  qed
  show ?thesis
    unfolding chain_ok_def using 1 2 3 by simp
qed

lemma clones_ok_step:
  assumes ok: "clones_ok N w v cs" and a: "a < N"
  shows "clones_ok N (fst (process_update workInProgress queue props instance r w v a))
           (snd (process_update workInProgress queue props instance r w v a))
           (cs @ clone_of r (cs \<noteq> []) (updates w a))"
proof -
  let ?P = "process_update workInProgress queue props instance r w v a"
  let ?c = "N + length cs"
  from ok have cnt: "update_count w = ?c"
    and ch: "chain_ok N (updates w) cs"
    and fst: "newBaseQueueFirst v = (if cs = [] then None else Some N)"
    and lst: "newBaseQueueLast v = (if cs = [] then None else Some (?c - 1))"
    by (simp_all add: clones_ok_def)
  show ?thesis
  proof (cases "expirationTime (updates w a) < r")
    case skip: True
    show ?thesis
    proof (cases "cs = []")
      case True
      then show ?thesis
        using skip cnt lst fst chain_ok_first [of N "updates w" "updates w a"]
        by (simp add: clones_ok_def clone_of_def process_update_skip)
    next
      case False
      then have l: "newBaseQueueLast v = Some (?c - 1)"
        using lst by simp
      show ?thesis
        using skip cnt l fst False chain_ok_extend [OF ch False, of "updates w a"]
        by (simp add: clones_ok_def clone_of_def process_update_skip)
    qed
  next
    case app: False
    show ?thesis
    proof (cases "cs = []")
      case True
      then show ?thesis
        using app cnt lst fst ch
        by (simp add: clones_ok_def clone_of_def process_update_apply_first)
    next
      case False
      then have l: "newBaseQueueLast v = Some (?c - 1)"
        using lst by simp
      show ?thesis
        using app cnt fst False
          chain_ok_extend [OF ch False, of "(updates w a)\<lparr>expirationTime := Sync\<rparr>"]
        by (simp add: clones_ok_def clone_of_def process_update_apply_rebase [OF app l])
    qed
  qed
qed

lemma process_update_old:
  assumes ok: "clones_ok N w v cs" and x: "x < N"
  shows "updates (fst (process_update workInProgress queue props instance r w v a)) x =
         updates w x"
proof -
  have cnt: "update_count w = N + length cs"
    and lst: "newBaseQueueLast v = (if cs = [] then None else Some (N + length cs - 1))"
    using ok by (simp_all add: clones_ok_def)
  have xl: "x \<noteq> N + length cs" "cs \<noteq> [] \<Longrightarrow> x \<noteq> N + length cs - 1"
    using x by (cases cs; simp)+
  show ?thesis
  proof (cases "expirationTime (updates w a) < r")
    case True
    then show ?thesis using cnt lst xl x by (cases "cs = []") (simp_all add: process_update_skip)
  next
    case False
    then show ?thesis
      using cnt lst xl x process_update_apply_first [OF False, of v]
        process_update_apply_rebase [OF False, of v "N + length cs - 1"]
      by (cases "cs = []") simp_all
  qed
qed

lemma abstracts_step:
  assumes ab: "abstracts N w v A" and a: "a < N"
  shows "abstracts N (fst (process_update workInProgress queue props instance r w v a))
           (snd (process_update workInProgress queue props instance r w v a))
           (abs_step r props instance (updates w a) A)"
proof -
  from ab have ok: "clones_ok N w v (a_clones A)" by (simp add: abstracts_def)
  have lst: "newBaseQueueLast v = (if a_clones A = [] then None else Some (N + length (a_clones A) - 1))"
    using ok by (simp add: clones_ok_def)
  have vals: "newState v = a_state A" "newBaseState v = a_base A" "newExpirationTime v = a_time A"
    using ab by (simp_all add: abstracts_def)
  show ?thesis
  proof (cases "expirationTime (updates w a) < r")
    case True
    then show ?thesis
      using clones_ok_step [OF ok a, of workInProgress queue props "instance" r] vals lst
      by (simp add: abstracts_def abs_step_def process_update_skip)
  next
    case False
    then show ?thesis
      using clones_ok_step [OF ok a, of workInProgress queue props "instance" r] vals lst
        process_update_apply_first [OF False, of v]
        process_update_apply_rebase [OF False, of v "N + length (a_clones A) - 1"]
      by (cases "a_clones A = []") (simp_all add: abstracts_def abs_step_def)
  qed
qed

lemma process_all_abstracts:
  assumes "abstracts N w v A" and "\<forall>a \<in> set as. a < N"
  shows "abstracts N (fst (process_all workInProgress queue props instance r w v as))
           (snd (process_all workInProgress queue props instance r w v as))
           (fold (abs_step r props instance) (map (updates w) as) A) \<and>
         (\<forall>x < N. updates (fst (process_all workInProgress queue props instance r w v as)) x =
                   updates w x)"
  using assms
proof (induction as arbitrary: w v A)
  case Nil
  then show ?case by simp
next
  case (Cons a as)
  let ?w = "fst (process_update workInProgress queue props instance r w v a)"
  let ?v = "snd (process_update workInProgress queue props instance r w v a)"
  from Cons.prems have a: "a < N" and as: "\<forall>a \<in> set as. a < N" by simp_all
  have ok: "clones_ok N w v (a_clones A)" using Cons.prems(1) by (simp add: abstracts_def)
  have old: "updates ?w x = updates w x" if "x < N" for x
    using process_update_old [OF ok that] .
  have m: "map (updates ?w) as = map (updates w) as"
    by (rule map_cong) (use as old in auto)
  from Cons.IH [OF abstracts_step [OF Cons.prems(1) a] as, of workInProgress queue props "instance" r]
  show ?case by (simp add: m old)
qed

lemma process_all_frame [simp]:
  "sharedQueues (fst (process_all workInProgress queue props instance r w v as)) =
     sharedQueues w"
  "shared (updateQueues (fst (process_all workInProgress queue props instance r w v as)) q) =
     shared (updateQueues w q)"
  "baseState (updateQueues (fst (process_all workInProgress queue props instance r w v as)) q) =
     baseState (updateQueues w q)"
  "baseQueue (updateQueues (fst (process_all workInProgress queue props instance r w v as)) q) =
     baseQueue (updateQueues w q)"
  "updateQueue (fibers (fst (process_all workInProgress queue props instance r w v as)) f) =
     updateQueue (fibers w f)"
  "alternate (fibers (fst (process_all workInProgress queue props instance r w v as)) f) =
     alternate (fibers w f)"
  "baseQueue_var (snd (process_all workInProgress queue props instance r w v as)) =
     baseQueue_var v"
  by (induction as arbitrary: w v; simp)+

lemma process_loop_list:
  assumes "links (nx w) a as (Some first)"
    and "first \<notin> set as"
    and "\<forall>x \<in> set (a # as). x < N"
    and "clones_ok N w v cs"
    and "pending (sharedQueues w (shared (updateQueues w queue))) = None"
  shows "process_loop workInProgress queue props instance r first w v (Some a) =
         Some (None, process_all workInProgress queue props instance r w v (a # as))"
  using assms
proof (induction as arbitrary: a w v cs)
  case Nil
  let ?w = "fst (process_update workInProgress queue props instance r w v a)"
  let ?v = "snd (process_update workInProgress queue props instance r w v a)"
  from Nil.prems have a: "a < N" by simp
  have "next_update (updates ?w a) = Some first"
    using process_update_old [OF Nil.prems(4) a, of workInProgress queue props "instance" r a]
      Nil.prems(1) by (simp add: nx_def)
  then have adv: "advance_update queue first ?w ?v a = (?w, ?v, Break)"
    using Nil.prems(5) by (simp add: advance_update_def)
  show ?case
    by (subst process_loop.simps) (simp add: split_beta adv)
next
  case (Cons b bs)
  let ?w = "fst (process_update workInProgress queue props instance r w v a)"
  let ?v = "snd (process_update workInProgress queue props instance r w v a)"
  from Cons.prems have a: "a < N" and b: "b \<noteq> first" and fb: "first \<notin> set bs"
    and lt: "\<forall>x \<in> set (b # bs). x < N"
    and ab: "nx w a = Some b" and l: "links (nx w) b bs (Some first)"
    by auto
  have old: "updates ?w x = updates w x" if "x < N" for x
    using process_update_old [OF Cons.prems(4) that] .
  have "next_update (updates ?w a) = Some b"
    using old [OF a] ab by (simp add: nx_def)
  then have adv: "advance_update queue first ?w ?v a = (?w, ?v, Continue (Some b))"
    using b by (simp add: advance_update_def)
  have "links (nx ?w) b bs (Some first) = links (nx w) b bs (Some first)"
    by (rule links_cong) (use lt old in \<open>auto simp: nx_def\<close>)
  then have l': "links (nx ?w) b bs (Some first)"
    using l by simp
  have ok: "clones_ok N ?w ?v (cs @ clone_of r (cs \<noteq> []) (updates w a))"
    by (rule clones_ok_step [OF Cons.prems(4) a])
  have p: "pending (sharedQueues ?w (shared (updateQueues ?w queue))) = None"
    using Cons.prems(5) by simp
  have "process_loop workInProgress queue props instance r first w v (Some a) =
        process_loop workInProgress queue props instance r first ?w ?v (Some b)"
    by (subst process_loop.simps) (simp add: split_beta adv)
  also have "\<dots> = Some (None, process_all workInProgress queue props instance r ?w ?v (b # bs))"
    by (rule Cons.IH [OF l' fb lt ok p])
  finally show ?case by simp
qed

lemma circular_last: "circular n l as \<Longrightarrow> as \<noteq> [] \<and> last as = l \<and> n l = Some (hd as)"
  by (cases as) (auto dest: links_last)

lemma circular_splice:
  assumes x: "circular n bl xs" and y: "circular n pl ys" and d: "set xs \<inter> set ys = {}"
  shows "circular (n(bl := n pl, pl := n bl)) pl (xs @ ys)"
proof -
  obtain a as where xs: "xs = a # as" using x by (cases xs) auto
  obtain b bs where ys: "ys = b # bs" using y by (cases ys) auto
  from x xs have dx: "distinct (a # as)" and lx: "last (a # as) = bl"
    and kx: "links n a as (Some a)" by simp_all
  from y ys have dy: "distinct (b # bs)" and ly: "last (b # bs) = pl"
    and ky: "links n b bs (Some b)" by simp_all
  have nbl: "n bl = Some a" using links_last [OF kx] lx by simp
  have npl: "n pl = Some b" using links_last [OF ky] ly by simp
  have blx: "bl \<in> set (a # as)" using lx last_in_set [of "a # as"] by simp
  have ply: "pl \<in> set (b # bs)" using ly last_in_set [of "b # bs"] by simp
  have pl_x: "pl \<notin> set (a # as)" and bl_y: "bl \<notin> set (b # bs)"
    using d blx ply xs ys by auto
  let ?n = "n(bl := n pl, pl := n bl)"
  have "links ?n a as (Some b) = links (n(bl := Some b)) a as (Some b)"
    by (rule links_cong) (use pl_x npl in auto)
  moreover have "links (n(bl := Some b)) a as (Some b)"
    using links_upd_last [OF dx kx, of "Some b"] lx by simp
  ultimately have 1: "links ?n a as (Some b)" by simp
  have "links ?n b bs (Some a) = links (n(pl := Some a)) b bs (Some a)"
    by (rule links_cong) (use bl_y nbl in auto)
  moreover have "links (n(pl := Some a)) b bs (Some a)"
    using links_upd_last [OF dy ky, of "Some a"] ly by simp
  ultimately have 2: "links ?n b bs (Some a)" by simp
  have dist: "distinct ((a # as) @ (b # bs))"
    using dx dy d xs ys by auto
  show ?thesis
    using 1 2 dist ly by (simp add: xs ys links_append)
qed

text \<open>The state after the statements before the loop.\<close>

lemma merge_pending_result:
  assumes h: "queue_holds w fiber q xs ys"
  shows "snd (merge_pending fiber q w) = (if xs @ ys = [] then None else Some (last (xs @ ys)))"
    and "xs @ ys \<noteq> [] \<Longrightarrow>
           circular (nx (fst (merge_pending fiber q w))) (last (xs @ ys)) (xs @ ys)"
    and "pending (sharedQueues (fst (merge_pending fiber q w)) (shared (updateQueues w q))) = None"
    and "content (updates (fst (merge_pending fiber q w)) x) = content (updates w x)"
    and "update_count (fst (merge_pending fiber q w)) = update_count w"
    and "shared (updateQueues (fst (merge_pending fiber q w)) q') = shared (updateQueues w q')"
    and "baseState (updateQueues (fst (merge_pending fiber q w)) q') = baseState (updateQueues w q')"
    and "updateQueue (fibers (fst (merge_pending fiber q w)) f) = updateQueue (fibers w f)"
    and "memoizedState (fibers (fst (merge_pending fiber q w)) f) = memoizedState (fibers w f)"
    and "expirationTime_fiber (fibers (fst (merge_pending fiber q w)) f) =
           expirationTime_fiber (fibers w f)"
proof -
  let ?s = "shared (updateQueues w q)"
  from h have bl: "base_list w q xs" and pl: "pending_list w ?s ys"
    and d: "set xs \<inter> set ys = {}"
    by (simp_all add: queue_holds_def)
  show "snd (merge_pending fiber q w) = (if xs @ ys = [] then None else Some (last (xs @ ys)))"
    using bl pl
    by (auto simp: merge_pending_def base_list_def pending_list_def Let_def
        split: option.splits dest: circular_last)
  show "pending (sharedQueues (fst (merge_pending fiber q w)) ?s) = None"
    by (simp add: merge_pending_def Let_def split: option.splits)
  show "content (updates (fst (merge_pending fiber q w)) x) = content (updates w x)"
    by (simp add: merge_pending_def Let_def split: option.splits)
  show "update_count (fst (merge_pending fiber q w)) = update_count w"
    by (simp add: merge_pending_def Let_def split: option.splits)
  show "shared (updateQueues (fst (merge_pending fiber q w)) q') = shared (updateQueues w q')"
    by (simp add: merge_pending_def Let_def split: option.splits)
  show "baseState (updateQueues (fst (merge_pending fiber q w)) q') = baseState (updateQueues w q')"
    by (simp add: merge_pending_def Let_def split: option.splits)
  show "updateQueue (fibers (fst (merge_pending fiber q w)) f) = updateQueue (fibers w f)"
    by (simp add: merge_pending_def Let_def split: option.splits)
  show "memoizedState (fibers (fst (merge_pending fiber q w)) f) = memoizedState (fibers w f)"
    by (simp add: merge_pending_def Let_def split: option.splits)
  show "expirationTime_fiber (fibers (fst (merge_pending fiber q w)) f) =
           expirationTime_fiber (fibers w f)"
    by (simp add: merge_pending_def Let_def split: option.splits)
  show "circular (nx (fst (merge_pending fiber q w))) (last (xs @ ys)) (xs @ ys)"
    if ne: "xs @ ys \<noteq> []"
  proof (cases "pending (sharedQueues w ?s)")
    case None
    then have "ys = []" using pl by (simp add: pending_list_def)
    then show ?thesis using None bl ne
      by (auto simp: merge_pending_def base_list_def Let_def split: option.splits
          dest: circular_last)
  next
    case (Some p)
    then have cy: "circular (nx w) p ys" using pl by (simp add: pending_list_def)
    then have lp: "last ys = p" "ys \<noteq> []" using circular_last by blast+
    show ?thesis
    proof (cases "baseQueue (updateQueues w q)")
      case None
      then have "xs = []" using bl by (simp add: base_list_def)
      moreover have "nx (fst (merge_pending fiber q w)) = nx w"
        using None Some by (auto simp: merge_pending_def Let_def nx_def split: option.splits)
      ultimately show ?thesis using cy lp by simp
    next
      case (Some b)
      then have cx: "circular (nx w) b xs" using bl by (simp add: base_list_def)
      have "nx (fst (merge_pending fiber q w)) = (nx w)(b := nx w p, p := nx w b)"
        using Some \<open>pending (sharedQueues w ?s) = Some p\<close>
        by (auto simp: merge_pending_def Let_def nx_def split: option.splits)
      then show ?thesis using circular_splice [OF cx cy d] lp by simp
    qed
  qed
qed

lemma links_upt:
  assumes "\<And>i. N \<le> i \<Longrightarrow> i < N + k \<Longrightarrow> n i = Some (Suc i)" and "n (N + k) = e"
  shows "links n N [Suc N..<Suc (N + k)] e"
  using assms
proof (induction k arbitrary: N)
  case 0
  then show ?case by simp
next
  case (Suc k)
  have 1: "n N = Some (Suc N)" using Suc.prems(1) [of N] by simp
  have 2: "links n (Suc N) [Suc (Suc N)..<Suc (Suc N + k)] e"
    by (rule Suc.IH) (use Suc.prems in auto)
  have "[Suc N..<Suc (N + Suc k)] = Suc N # [Suc (Suc N)..<Suc (Suc N + k)]"
    by (simp add: upt_conv_Cons)
  then show ?case using 1 2 by simp
qed

lemma chain_ok_circular:
  assumes ok: "chain_ok N h cs" and ne: "cs \<noteq> []"
  shows "circular (\<lambda>i. next_update ((h(N + length cs - 1 :=
            (h (N + length cs - 1))\<lparr>next_update := Some N\<rparr>)) i))
          (N + length cs - 1) [N..<N + length cs]"
proof -
  obtain k where k: "length cs = Suc k" using ne by (cases cs) auto
  let ?n = "\<lambda>i. next_update ((h(N + k := (h (N + k))\<lparr>next_update := Some N\<rparr>)) i)"
  have step: "?n i = Some (Suc i)" if "N \<le> i" "i < N + k" for i
    using ok that by (simp add: chain_ok_def k)
  have lnk: "links ?n N [Suc N..<Suc (N + k)] (Some N)"
    by (rule links_upt) (use step in auto)
  have "[N..<N + Suc k] = N # [Suc N..<Suc (N + k)]"
    by (simp add: upt_conv_Cons)
  then show ?thesis using lnk by (simp add: k)
qed

lemma nx_hasForceUpdate [simp]: "nx (w\<lparr>hasForceUpdate := b\<rparr>) = nx w"
  by (rule ext) (simp add: nx_def)

lemma queue_holds_hasForceUpdate [simp]:
  "queue_holds (w\<lparr>hasForceUpdate := b\<rparr>) fiber q xs ys = queue_holds w fiber q xs ys"
  by (simp add: queue_holds_def base_list_def pending_list_def cong: option.case_cong)

lemma processUpdateQueue_empty:
  assumes "queue_holds w fiber q [] []"
  shows "processUpdateQueue w fiber props instance r = Some (None, w\<lparr>hasForceUpdate := False\<rparr>)"
proof -
  from assms have "updateQueue (fibers w fiber) = Some q"
    "baseQueue (updateQueues w q) = None"
    "pending (sharedQueues w (shared (updateQueues w q))) = None"
    by (auto simp: queue_holds_def base_list_def pending_list_def split: option.splits)
  then show ?thesis
    by (simp add: processUpdateQueue_def merge_pending_def Let_def)
qed

lemma processUpdateQueue_nonempty:
  assumes h: "queue_holds w fiber q xs ys" and ne: "xs @ ys \<noteq> []"
  shows "processUpdateQueue w fiber props instance r =
     (let w1 = fst (merge_pending fiber q (w\<lparr>hasForceUpdate := False\<rparr>));
          p = process_all fiber q props instance r w1
                (initial_vars w1 q (last (xs @ ys))) (xs @ ys)
      in Some (None, finish_queue fiber q (fst p) (snd p)))"
proof -
  let ?w0 = "w\<lparr>hasForceUpdate := False\<rparr>"
  define w1 where "w1 = fst (merge_pending fiber q ?w0)"
  define l where "l = last (xs @ ys)"
  define v where "v = initial_vars w1 q l"
  have h0: "queue_holds ?w0 fiber q xs ys" using h by simp
  have q: "updateQueue (fibers ?w0 fiber) = Some q" using h by (simp add: queue_holds_def)
  have m: "merge_pending fiber q ?w0 = (w1, Some l)"
    using merge_pending_result(1) [OF h0] ne by (simp add: prod_eq_iff w1_def l_def)
  have c: "circular (nx w1) l (xs @ ys)"
    using merge_pending_result(2) [OF h0] ne by (simp add: w1_def l_def)
  obtain a as where zs: "xs @ ys = a # as" using ne by (cases "xs @ ys") auto
  from c zs have d: "distinct (a # as)" and k: "links (nx w1) a as (Some a)"
    and la: "last (a # as) = l"
    by simp_all
  have first: "next_update (updates w1 l) = Some a"
    using links_last [OF k] la by (simp add: nx_def)
  have cnt: "update_count w1 = update_count w"
    using merge_pending_result(5) [OF h0] by (simp add: w1_def)
  have lt: "\<forall>x \<in> set (a # as). x < update_count w1"
    using h zs cnt by (simp add: queue_holds_def)
  have ok: "clones_ok (update_count w1) w1 v []"
    by (auto simp: clones_ok_def chain_ok_def initial_vars_def v_def)
  have p: "pending (sharedQueues w1 (shared (updateQueues w1 q))) = None"
    using merge_pending_result(3,6) [OF h0] by (simp add: w1_def)
  have loop: "process_loop fiber q props instance r a w1 v (Some a) =
      Some (None, process_all fiber q props instance r w1 v (a # as))"
    using d by (intro process_loop_list [OF k _ lt ok p]) simp
  have v: "v = \<lparr>baseQueue_var = l, newState = baseState (updateQueues w1 q),
                newExpirationTime = NoWork, newBaseState = JNull,
                newBaseQueueFirst = None, newBaseQueueLast = None\<rparr>"
    by (simp add: v_def initial_vars_def)
  have "processUpdateQueue w fiber props instance r =
      Some (None, finish_queue fiber q
        (fst (process_all fiber q props instance r w1 v (a # as)))
        (snd (process_all fiber q props instance r w1 v (a # as))))"
    unfolding processUpdateQueue_def Let_def
    by (simp only: q m first loop v [symmetric] option.case prod.case split_beta fst_conv snd_conv)
  then show ?thesis
    unfolding v_def l_def w1_def zs [symmetric] Let_def .
qed

lemma abs_step_content: "abs_step r props instance (content u) = abs_step r props instance u"
  by (rule ext) (simp add: abs_step_def clone_of_def next_state_def content_def)

lemma fold_abs_step_content:
  "fold (abs_step r props instance) (map h as) A =
   fold (abs_step r props instance) (map (\<lambda>a. content (h a)) as) A"
  by (induction as arbitrary: A) (simp_all add: abs_step_content)

lemma finish_queue_result:
  assumes ab: "abstracts N w v A"
  shows "baseState (updateQueues (finish_queue fiber q w v) q) =
           (if a_clones A = [] then a_state A else a_base A)"
    and "base_list (finish_queue fiber q w v) q [N..<N + length (a_clones A)]"
    and "queue_content (finish_queue fiber q w v) [N..<N + length (a_clones A)] = a_clones A"
    and "memoizedState (fibers (finish_queue fiber q w v) fiber) = a_state A"
    and "expirationTime_fiber (fibers (finish_queue fiber q w v) fiber) = a_time A"
    and "updateQueue (fibers (finish_queue fiber q w v) f) = updateQueue (fibers w f)"
    and "sharedQueues (finish_queue fiber q w v) = sharedQueues w"
    and "shared (updateQueues (finish_queue fiber q w v) q') = shared (updateQueues w q')"
    and "update_count (finish_queue fiber q w v) = N + length (a_clones A)"
    and "content (updates (finish_queue fiber q w v) x) = content (updates w x)"
proof -
  let ?cs = "a_clones A"
  let ?w = "finish_queue fiber q w v"
  from ab have cnt: "update_count w = N + length ?cs"
    and ch: "chain_ok N (updates w) ?cs"
    and fst: "newBaseQueueFirst v = (if ?cs = [] then None else Some N)"
    and lst: "newBaseQueueLast v = (if ?cs = [] then None else Some (N + length ?cs - 1))"
    and vals: "newState v = a_state A" "newBaseState v = a_base A" "newExpirationTime v = a_time A"
    by (simp_all add: abstracts_def clones_ok_def)
  show "baseState (updateQueues ?w q) = (if ?cs = [] then a_state A else a_base A)"
    using lst vals by (simp add: finish_queue_def Let_def)
  show "memoizedState (fibers ?w fiber) = a_state A"
    using vals by (simp add: finish_queue_def Let_def split_beta split: option.splits)
  show "expirationTime_fiber (fibers ?w fiber) = a_time A"
    using vals by (simp add: finish_queue_def Let_def split_beta split: option.splits)
  show "updateQueue (fibers ?w f) = updateQueue (fibers w f)"
    by (simp add: finish_queue_def Let_def split_beta split: option.splits)
  show "sharedQueues ?w = sharedQueues w"
    by (simp add: finish_queue_def Let_def split_beta split: option.splits)
  show "shared (updateQueues ?w q') = shared (updateQueues w q')"
    by (simp add: finish_queue_def Let_def split_beta split: option.splits)
  show "update_count ?w = N + length ?cs"
    using cnt by (simp add: finish_queue_def Let_def split_beta split: option.splits)
  show cx: "content (updates ?w x) = content (updates w x)" for x
    by (simp add: finish_queue_def Let_def split_beta split: option.splits)
  show "queue_content ?w [N..<N + length ?cs] = ?cs"
    using ch by (simp add: queue_content_def chain_ok_def cx)
  show "base_list ?w q [N..<N + length ?cs]"
  proof (cases "?cs = []")
    case True
    then show ?thesis using lst by (simp add: base_list_def finish_queue_def Let_def)
  next
    case False
    have bq: "baseQueue (updateQueues ?w q) = Some (N + length ?cs - 1)"
      using lst False by (simp add: finish_queue_def Let_def)
    have "nx ?w = (\<lambda>i. next_update (((updates w)(N + length ?cs - 1 :=
            (updates w (N + length ?cs - 1))\<lparr>next_update := Some N\<rparr>)) i))"
      using lst fst False by (auto simp: finish_queue_def Let_def nx_def)
    then show ?thesis
      using chain_ok_circular [OF ch False] bq by (simp add: base_list_def)
  qed
qed

lemma processUpdateQueue_pass:
  fixes r :: ExpirationTime and props inst :: jsval
  assumes h: "queue_holds w fiber q xs ys"
  defines "A \<equiv> abs_run r props inst (baseState (updateQueues w q))
                  (queue_content w (xs @ ys))"
  defines "N \<equiv> update_count w"
  shows "\<exists>w'. processUpdateQueue w fiber props inst r = Some (None, w') \<and>
      queue_holds w' fiber q [N..<N + length (a_clones A)] [] \<and>
      queue_content w' [N..<N + length (a_clones A)] = a_clones A \<and>
      baseState (updateQueues w' q) = (if a_clones A = [] then a_state A else a_base A) \<and>
      memoizedState (fibers w' fiber) =
        (if xs @ ys = [] then memoizedState (fibers w fiber) else a_state A) \<and>
      expirationTime_fiber (fibers w' fiber) =
        (if xs @ ys = [] then expirationTime_fiber (fibers w fiber) else a_time A) \<and>
      update_count w' = N + length (a_clones A) \<and>
      (\<forall>x < N. content (updates w' x) = content (updates w x))"
proof (cases "xs @ ys = []")
  case True
  then have e: "xs = []" "ys = []" by simp_all
  have A0: "A = \<lparr>a_clones = [], a_state = baseState (updateQueues w q), a_base = JNull,
                 a_time = NoWork\<rparr>"
    by (simp add: A_def abs_run_def queue_content_def e)
  have p: "processUpdateQueue w fiber props inst r = Some (None, w\<lparr>hasForceUpdate := False\<rparr>)"
    using h e by (simp add: processUpdateQueue_empty)
  have "queue_holds (w\<lparr>hasForceUpdate := False\<rparr>) fiber q [] []"
    using h e by simp
  then show ?thesis using p by (simp add: A0 e queue_content_def N_def)
next
  case False
  let ?w0 = "w\<lparr>hasForceUpdate := False\<rparr>"
  define w1 where "w1 = fst (merge_pending fiber q ?w0)"
  define v0 where "v0 = initial_vars w1 q (last (xs @ ys))"
  define w2 where "w2 = fst (process_all fiber q props inst r w1 v0 (xs @ ys))"
  define v2 where "v2 = snd (process_all fiber q props inst r w1 v0 (xs @ ys))"
  define w3 where "w3 = finish_queue fiber q w2 v2"
  have h0: "queue_holds ?w0 fiber q xs ys" using h by simp
  note m = merge_pending_result [OF h0, folded w1_def]
  have p: "processUpdateQueue w fiber props inst r = Some (None, w3)"
    using processUpdateQueue_nonempty [OF h False, of props inst r]
    by (simp add: Let_def w1_def v0_def w2_def v2_def w3_def)
  have N1: "update_count w1 = N" using m(5) by (simp add: N_def)
  have lt: "\<forall>a \<in> set (xs @ ys). a < N"
    using h by (simp add: queue_holds_def N_def)
  let ?A0 = "\<lparr>a_clones = [], a_state = baseState (updateQueues w q), a_base = JNull,
               a_time = NoWork\<rparr>"
  have ab0: "abstracts N w1 v0 ?A0"
    using N1 m(7) [of q]
    by (auto simp: abstracts_def clones_ok_def chain_ok_def v0_def initial_vars_def)
  have c1: "map (\<lambda>a. content (updates w1 a)) (xs @ ys) = queue_content w (xs @ ys)"
    using m(4) by (simp add: queue_content_def)
  have "fold (abs_step r props inst) (map (updates w1) (xs @ ys)) ?A0 = A"
    unfolding A_def abs_run_def c1 [symmetric] by (rule fold_abs_step_content)
  with process_all_abstracts [OF ab0 lt, of fiber q props inst r]
  have ab2: "abstracts N w2 v2 A" and old: "\<forall>x < N. updates w2 x = updates w1 x"
    by (simp_all add: w2_def v2_def)
  note f = finish_queue_result [OF ab2, of fiber q, folded w3_def]
  have uq: "updateQueue (fibers w3 fiber) = Some q"
    using f(6) [of fiber] m(8) [of fiber] h by (simp add: w2_def queue_holds_def)
  have sh: "shared (updateQueues w3 q) = shared (updateQueues w q)"
    using f(8) [of q] m(6) [of q] by (simp add: w2_def)
  have pe: "pending (sharedQueues w3 (shared (updateQueues w3 q))) = None"
    using f(7) m(3) sh by (simp add: w2_def)
  have qh: "queue_holds w3 fiber q [N..<N + length (a_clones A)] []"
    using uq f(2) pe f(9) by (simp add: queue_holds_def pending_list_def)
  have cont: "\<forall>x < N. content (updates w3 x) = content (updates w x)"
    using f(10) old m(4) by simp
  show ?thesis
    using p qh f(3) f(1) f(4) f(5) f(9) cont False by auto
qed

lemma abs_step_sel:
  "a_clones (abs_step r props inst u A) = a_clones A @ clone_of r (a_clones A \<noteq> []) u"
  "a_state (abs_step r props inst u A) =
     (if expirationTime u < r then a_state A else next_state props inst u (a_state A))"
  "a_base (abs_step r props inst u A) =
     (if expirationTime u < r \<and> a_clones A = [] then a_state A else a_base A)"
  "a_time (abs_step r props inst u A) =
     (if expirationTime u < r then max (expirationTime u) (a_time A) else a_time A)"
  by (simp_all add: abs_step_def)

lemma fold_abs_step_state:
  "a_state (fold (abs_step r props inst) us A) =
     fold (next_state props inst) (filter (\<lambda>u. r \<le> expirationTime u) us) (a_state A)"
  by (induction us arbitrary: A) (simp_all add: abs_step_sel)

lemma fold_abs_step_time:
  "a_time (fold (abs_step r props inst) us A) =
     fold max (map expirationTime (filter (\<lambda>u. expirationTime u < r) us)) (a_time A)"
  by (induction us arbitrary: A) (simp_all add: abs_step_sel)

lemma fold_abs_step_clones_rebase:
  "a_clones A \<noteq> [] \<Longrightarrow>
   a_clones (fold (abs_step r props inst) us A) = a_clones A @ map (rebase_clone r) us \<and>
   a_base (fold (abs_step r props inst) us A) = a_base A"
  by (induction us arbitrary: A) (simp_all add: abs_step_sel clone_of_def rebase_clone_def)

lemma fold_abs_step_clones:
  "a_clones A = [] \<Longrightarrow>
   a_clones (fold (abs_step r props inst) us A) =
     map (rebase_clone r) (dropWhile (\<lambda>u. r \<le> expirationTime u) us) \<and>
   a_base (fold (abs_step r props inst) us A) =
     (if dropWhile (\<lambda>u. r \<le> expirationTime u) us = [] then a_base A
      else fold (next_state props inst) (takeWhile (\<lambda>u. r \<le> expirationTime u) us) (a_state A))"
proof (induction us arbitrary: A)
  case Nil
  then show ?case by simp
next
  case (Cons u us)
  show ?case
  proof (cases "expirationTime u < r")
    case True
    have ne: "a_clones (abs_step r props inst u A) \<noteq> []"
      using True by (simp add: abs_step_sel clone_of_def)
    have c: "a_clones (abs_step r props inst u A) = [rebase_clone r u]"
      and b: "a_base (abs_step r props inst u A) = a_state A"
      using True Cons.prems by (simp_all add: abs_step_sel clone_of_def rebase_clone_def)
    from fold_abs_step_clones_rebase [OF ne, of r props inst us]
    show ?thesis using True by (simp add: c b)
  next
    case False
    have "a_clones (abs_step r props inst u A) = []"
      using False Cons.prems by (simp add: abs_step_sel clone_of_def)
    from Cons.IH [OF this] show ?thesis using False by (simp add: abs_step_sel)
  qed
qed

lemma fold_max_Max:
  "fold max xs (e :: int) = Max (insert e (set xs))"
proof (induction xs arbitrary: e)
  case Nil
  then show ?case by simp
next
  case (Cons x xs)
  have "Max (insert (max x e) (set xs)) = Max (insert e (insert x (set xs)))"
  proof -
    have "Max (insert e (insert x (set xs))) = Max (insert (max x e) (set xs))"
    proof (cases "set xs = {}")
      case True
      then show ?thesis by (simp add: max.commute)
    next
      case False
      then show ?thesis by (simp add: max.assoc max.left_commute max.commute)
    qed
    then show ?thesis by simp
  qed
  then show ?case by (simp add: Cons.IH)
qed

lemma fold_max_NoWork:
  assumes "xs \<noteq> []" and "\<forall>x \<in> set xs. NoWork \<le> x"
  shows "fold max xs NoWork = Max (set xs)"
proof -
  have "Max (insert NoWork (set xs)) = max NoWork (Max (set xs))"
    using assms(1) by simp
  also have "\<dots> = Max (set xs)"
    using assms by (simp add: max_def Max_ge_iff)
  finally show ?thesis by (simp add: fold_max_Max)
qed

lemma map_of_assign_properties:
  "distinct (map fst source) \<Longrightarrow>
   map_of (assign_properties source target) = map_of target ++ map_of source"
proof (induction source arbitrary: target)
  case Nil
  then show ?case by (simp add: assign_properties_def)
next
  case (Cons p source)
  obtain k v where p: "p = (k, v)" by (cases p)
  from Cons.prems have d: "distinct (map fst source)" and k: "k \<notin> fst ` set source"
    by (simp_all add: p)
  have "map_of (assign_properties (p # source) target) =
        map_of (assign_properties source (AList.update k v target))"
    by (simp add: assign_properties_def p)
  also have "\<dots> = (map_of target)(k \<mapsto> v) ++ map_of source"
    by (simp only: Cons.IH [OF d] update_conv')
  also have "\<dots> = map_of target ++ map_of (p # source)"
  proof (rule ext)
    fix x
    show "((map_of target)(k \<mapsto> v) ++ map_of source) x = (map_of target ++ map_of (p # source)) x"
    proof -
      have "map_of source k = None" using k by (simp add: map_of_eq_None_iff)
      then show ?thesis by (cases "map_of source x") (auto simp: p map_add_def)
    qed
  qed
  finally show ?case .
qed

lemma distinct_assign_properties:
  "distinct (map fst target) \<Longrightarrow> distinct (map fst (assign_properties source target))"
proof (induction source arbitrary: target)
  case Nil
  then show ?case by (simp add: assign_properties_def)
next
  case (Cons p source)
  obtain k v where p: "p = (k, v)" by (cases p)
  have "distinct (map fst (AList.update k v target))"
    using Cons.prems by (simp add: distinct_update)
  from Cons.IH [OF this] show ?case by (simp add: assign_properties_def p)
qed

lemma Object_assign_two:
  "Object_assign [] [a, b] =
     JObject (assign_properties (own_properties b) (assign_properties (own_properties a) []))"
  by (simp add: Object_assign_def)

lemma Object_assign_merge:
  assumes "distinct_keys a" "distinct_keys b"
  shows "map_of (own_properties (Object_assign [] [a, b])) key =
           (case map_of (own_properties b) key of
              Some v \<Rightarrow> Some v
            | None \<Rightarrow> map_of (own_properties a) key)"
    and "distinct_keys (Object_assign [] [a, b])"
  using assms
  by (simp_all add: Object_assign_two map_of_assign_properties distinct_assign_properties
      distinct_keys_def map_add_def split: option.splits)

text \<open>
  C3. For an \<open>UpdateState\<close> update: when the payload, or the result of calling a function
  payload with the previous state and the props, is \<open>null\<close> or \<open>undefined\<close>, the next state
  is the previous state; otherwise it is an object in which every key of the partial state
  has the partial state's value and every other key has the value of the previous state.
  The world itself is not changed. Objects have distinct keys.
\<close>

theorem getStateFromUpdate_UpdateState:
  assumes "tag (updates w update) = UpdateState"
    and "partialState = payload_result (payload (updates w update)) inst prevState nextProps"
    and "distinct_keys prevState" and "distinct_keys partialState"
  shows "fst (getStateFromUpdate w workInProgress queue update prevState nextProps inst) = w \<and>
    (partialState = JNull \<or> partialState = JUndefined \<longrightarrow>
       snd (getStateFromUpdate w workInProgress queue update prevState nextProps inst) =
         prevState) \<and>
    (partialState \<noteq> JNull \<and> partialState \<noteq> JUndefined \<longrightarrow>
       (\<exists>fields.
          snd (getStateFromUpdate w workInProgress queue update prevState nextProps inst) =
            JObject fields \<and>
          distinct (map fst fields) \<and>
          (\<forall>key. map_of fields key =
             (case map_of (own_properties partialState) key of
                Some v \<Rightarrow> Some v
              | None \<Rightarrow> map_of (own_properties prevState) key))))"
proof -
  let ?g = "getStateFromUpdate w workInProgress queue update prevState nextProps inst"
  have g: "?g = (if partialState = JNull \<or> partialState = JUndefined then (w, prevState)
                 else (w, Object_assign [] [prevState, partialState]))"
    using assms(1,2)
    by (simp add: getStateFromUpdate_def payload_result_def Let_def split: Payload.splits)
  have 1: "fst ?g = w" by (simp add: g)
  have 2: "partialState = JNull \<or> partialState = JUndefined \<longrightarrow> snd ?g = prevState"
    by (simp add: g)
  have 3: "\<exists>fields. snd ?g = JObject fields \<and> distinct (map fst fields) \<and>
          (\<forall>key. map_of fields key =
             (case map_of (own_properties partialState) key of
                Some v \<Rightarrow> Some v
              | None \<Rightarrow> map_of (own_properties prevState) key))"
    if ne: "partialState \<noteq> JNull \<and> partialState \<noteq> JUndefined"
  proof -
    obtain fields where f: "Object_assign [] [prevState, partialState] = JObject fields"
      by (simp add: Object_assign_def)
    have s: "snd ?g = JObject fields" using ne by (simp add: g f)
    have d: "distinct (map fst fields)"
      using Object_assign_merge(2) [OF assms(3,4)] by (simp add: f distinct_keys_def)
    have m: "map_of fields key =
             (case map_of (own_properties partialState) key of
                Some v \<Rightarrow> Some v
              | None \<Rightarrow> map_of (own_properties prevState) key)" for key
      using Object_assign_merge(1) [OF assms(3,4), of key] by (simp add: f)
    show ?thesis using s d m by blast
  qed
  show ?thesis using 1 2 3 by blast
qed

theorem getStateFromUpdate_UpdateState_witness:
  "snd (getStateFromUpdate merge_example 0 0 0
          (JObject [(''a'', JNum 1), (''b'', JNum 2)]) JNull JNull) =
     JObject [(''a'', JNum 1), (''b'', JNum 3), (''c'', JNum 4)] \<and>
   (\<exists>fields.
      snd (getStateFromUpdate merge_example 0 0 0
             (JObject [(''a'', JNum 1), (''b'', JNum 2)]) JNull JNull) = JObject fields \<and>
      map_of fields ''a'' = Some (JNum 1) \<and> map_of fields ''b'' = Some (JNum 3))"
proof -
  have t: "tag (updates merge_example 0) = UpdateState"
    by (simp add: merge_example_def empty_world_def)
  have p: "JObject [(''b'', JNum 3), (''c'', JNum 4)] =
      payload_result (payload (updates merge_example 0)) JNull
        (JObject [(''a'', JNum 1), (''b'', JNum 2)]) JNull"
    by (simp add: merge_example_def empty_world_def payload_result_def)
  have d1: "distinct_keys (JObject [(''a'', JNum 1), (''b'', JNum 2)])"
    and d2: "distinct_keys (JObject [(''b'', JNum 3), (''c'', JNum 4)])"
    by (simp_all add: distinct_keys_def)
  from getStateFromUpdate_UpdateState [OF t p d1 d2, of 0 0]
  obtain fields where f: "snd (getStateFromUpdate merge_example 0 0 0
             (JObject [(''a'', JNum 1), (''b'', JNum 2)]) JNull JNull) = JObject fields"
    and m: "\<forall>key. map_of fields key =
             (case map_of (own_properties (JObject [(''b'', JNum 3), (''c'', JNum 4)])) key of
                Some v \<Rightarrow> Some v
              | None \<Rightarrow> map_of (own_properties (JObject [(''a'', JNum 1), (''b'', JNum 2)])) key)"
    by auto
  have a: "map_of fields ''a'' = Some (JNum 1)" using m [rule_format, of "''a''"] by simp
  have b: "map_of fields ''b'' = Some (JNum 3)" using m [rule_format, of "''b''"] by simp
  have v: "snd (getStateFromUpdate merge_example 0 0 0
          (JObject [(''a'', JNum 1), (''b'', JNum 2)]) JNull JNull) =
     JObject [(''a'', JNum 1), (''b'', JNum 3), (''c'', JNum 4)]"
    by (simp add: getStateFromUpdate_def merge_example_def empty_world_def Object_assign_def
        assign_properties_def)
  show ?thesis using f a b v by blast
qed

text \<open>
  C4. On a fiber without an update queue \<open>enqueueUpdate\<close> returns the world unchanged.
  Otherwise, when the pending list of the fiber's queue is the circular list \<open>as\<close>, oldest
  first, and \<open>update\<close> is an update that is not in it, the pending list afterwards is the
  circular list \<open>as @ [update]\<close>: \<open>shared.pending\<close> is \<open>update\<close>, its \<open>next\<close> is the oldest
  pending update, and no field of any update other than \<open>next\<close> has changed.
\<close>

theorem enqueueUpdate_appends:
  "(updateQueue (fibers w fiber) = None \<longrightarrow> enqueueUpdate w fiber update = w) \<and>
   (\<forall>q as. updateQueue (fibers w fiber) = Some q \<and>
      pending_list w (shared (updateQueues w q)) as \<and> update \<notin> set as \<longrightarrow>
      pending_list (enqueueUpdate w fiber update) (shared (updateQueues w q)) (as @ [update]) \<and>
      pending (sharedQueues (enqueueUpdate w fiber update) (shared (updateQueues w q))) =
        Some update \<and>
      nx (enqueueUpdate w fiber update) update = Some (hd (as @ [update])) \<and>
      shared (updateQueues (enqueueUpdate w fiber update) q) = shared (updateQueues w q) \<and>
      (\<forall>x. content (updates (enqueueUpdate w fiber update) x) = content (updates w x)))"
proof (intro conjI allI impI)
  assume "updateQueue (fibers w fiber) = None"
  then show "enqueueUpdate w fiber update = w" by (simp add: enqueueUpdate_def)
next
  fix q as
  assume a: "updateQueue (fibers w fiber) = Some q \<and>
      pending_list w (shared (updateQueues w q)) as \<and> update \<notin> set as"
  let ?w = "enqueueUpdate w fiber update"
  let ?s = "shared (updateQueues w q)"
  from a have q: "updateQueue (fibers w fiber) = Some q"
    and p: "pending_list w ?s as" and u: "update \<notin> set as" by simp_all
  show pl: "pending_list ?w ?s (as @ [update])"
    by (rule enqueueUpdate_pending_list [OF q p u])
  show pe: "pending (sharedQueues ?w ?s) = Some update"
    using q by (simp add: enqueueUpdate_def Let_def split: option.splits)
  from pl pe have "circular (nx ?w) update (as @ [update])" by (simp add: pending_list_def)
  then show "nx ?w update = Some (hd (as @ [update]))"
    using circular_last by blast
  show "shared (updateQueues ?w q) = ?s"
    using q by (simp add: enqueueUpdate_def Let_def split: option.splits)
  show "content (updates ?w x) = content (updates w x)" for x
    using q by (simp add: enqueueUpdate_def Let_def split: option.splits)
qed

lemma createUpdate_sel [simp]:
  "fst (createUpdate w e c) = update_count w"
  "updates (snd (createUpdate w e c)) = (updates w)(update_count w :=
      \<lparr>expirationTime = e, suspenseConfig = c, tag = UpdateState, payload = Value JNull,
       callback = None, next_update = Some (update_count w)\<rparr>)"
  "update_count (snd (createUpdate w e c)) = Suc (update_count w)"
  "sharedQueues (snd (createUpdate w e c)) = sharedQueues w"
  "updateQueues (snd (createUpdate w e c)) = updateQueues w"
  "fibers (snd (createUpdate w e c)) = fibers w"
  by (simp_all add: createUpdate_def Let_def split_beta)

lemma circular_cong:
  "(\<And>x. x \<in> set as \<Longrightarrow> n x = n' x) \<Longrightarrow> circular n l as = circular n' l as"
proof (cases as)
  case Nil
  then show ?thesis by simp
next
  case (Cons a bs)
  assume "\<And>x. x \<in> set as \<Longrightarrow> n x = n' x"
  then have "links n a bs (Some a) = links n' a bs (Some a)"
    by (intro links_cong) (simp add: Cons)
  then show ?thesis by (simp add: Cons)
qed

lemma enqueueUpdate_frame:
  "shared (updateQueues (enqueueUpdate w fiber update) q) = shared (updateQueues w q)"
  "baseState (updateQueues (enqueueUpdate w fiber update) q) = baseState (updateQueues w q)"
  "baseQueue (updateQueues (enqueueUpdate w fiber update) q) = baseQueue (updateQueues w q)"
  "content (updates (enqueueUpdate w fiber update) x) = content (updates w x)"
  "update_count (enqueueUpdate w fiber update) = update_count w"
  "fibers (enqueueUpdate w fiber update) = fibers w"
  by (simp_all add: enqueueUpdate_def Let_def split: option.splits)

lemma enqueueUpdate_nx_other:
  assumes "updateQueue (fibers w fiber) = Some q"
    and "pending_list w (shared (updateQueues w q)) ys"
    and "x \<notin> set ys" and "x \<noteq> update"
  shows "nx (enqueueUpdate w fiber update) x = nx w x"
proof (cases "pending (sharedQueues w (shared (updateQueues w q)))")
  case None
  then show ?thesis using assms(1,4) by (simp add: enqueueUpdate_def Let_def nx_def)
next
  case (Some p)
  then have "circular (nx w) p ys" using assms(2) by (simp add: pending_list_def)
  then have "p \<in> set ys" using circular_last [of "nx w" p ys] last_in_set [of ys] by auto
  then have "x \<noteq> p" using assms(3) by auto
  then show ?thesis using Some assms(1,4) by (simp add: enqueueUpdate_def Let_def nx_def)
qed

lemma scheduleUpdate_queue_holds:
  assumes h: "queue_holds w fiber q xs ys"
  shows "queue_holds (scheduleUpdate fiber u w) fiber q xs (ys @ [update_count w])"
    and "queue_content (scheduleUpdate fiber u w) (xs @ ys @ [update_count w]) =
         queue_content w (xs @ ys) @ [content u]"
    and "baseState (updateQueues (scheduleUpdate fiber u w) q) = baseState (updateQueues w q)"
    and "memoizedState (fibers (scheduleUpdate fiber u w) f) = memoizedState (fibers w f)"
proof -
  let ?c = "update_count w"
  let ?s = "shared (updateQueues w q)"
  define w1 where "w1 = (snd (createUpdate w (expirationTime u) (suspenseConfig u)))
     \<lparr>updates := (updates (snd (createUpdate w (expirationTime u) (suspenseConfig u))))
        (?c := (updates (snd (createUpdate w (expirationTime u) (suspenseConfig u))) ?c)
                 \<lparr>tag := tag u, payload := payload u, callback := callback u\<rparr>)\<rparr>"
  have s: "scheduleUpdate fiber u w = enqueueUpdate w1 fiber ?c"
    by (simp add: scheduleUpdate_def Let_def split_beta w1_def)
  from h have q: "updateQueue (fibers w fiber) = Some q"
    and bl: "base_list w q xs" and pl: "pending_list w ?s ys"
    and d: "set xs \<inter> set ys = {}" and lt: "\<forall>a \<in> set (xs @ ys). a < ?c"
    by (simp_all add: queue_holds_def)
  have old: "updates w1 x = updates w x" if "x < ?c" for x
    using that by (simp add: w1_def)
  have new: "content (updates w1 ?c) = content u"
    by (simp add: w1_def content_def)
  have cnt: "update_count w1 = Suc ?c" by (simp add: w1_def)
  have q1: "updateQueue (fibers w1 fiber) = Some q" using q by (simp add: w1_def)
  have uq1: "updateQueues w1 = updateQueues w" by (simp add: w1_def)
  have sq1: "sharedQueues w1 = sharedQueues w" by (simp add: w1_def)
  have nxs: "nx w1 x = nx w x" if "x < ?c" for x
    using old [OF that] by (simp add: nx_def)
  have pl1: "pending_list w1 ?s ys"
    using pl lt circular_cong [of ys "nx w1" "nx w"] nxs
    by (auto simp: pending_list_def sq1 split: option.splits)
  have notin: "?c \<notin> set ys" "?c \<notin> set xs" using lt by auto
  have pl1': "pending_list w1 (shared (updateQueues w1 q)) ys"
    using pl1 by (simp add: uq1)
  have pl2: "pending_list (scheduleUpdate fiber u w) ?s (ys @ [?c])"
    using enqueueUpdate_pending_list [OF q1 pl1' notin(1)] by (simp add: s uq1)
  have sh2: "shared (updateQueues (scheduleUpdate fiber u w) q') = shared (updateQueues w q')" for q'
    by (simp add: s enqueueUpdate_frame uq1)
  have c2: "content (updates (scheduleUpdate fiber u w) x) = content (updates w1 x)" for x
    by (simp add: s enqueueUpdate_frame)
  have cnt2: "update_count (scheduleUpdate fiber u w) = Suc ?c"
    by (simp add: s enqueueUpdate_frame cnt)
  have nx2: "nx (scheduleUpdate fiber u w) x = nx w x" if "x \<in> set xs" for x
  proof -
    have x: "x < ?c" "x \<noteq> ?c" using lt that by auto
    have "x \<notin> set ys" using that d by auto
    from enqueueUpdate_nx_other [OF q1 pl1' this x(2)] nxs [OF x(1)]
    show ?thesis by (simp add: s)
  qed
  have bl2: "base_list (scheduleUpdate fiber u w) q xs"
    using bl nx2 circular_cong [of xs "nx (scheduleUpdate fiber u w)" "nx w"]
    by (auto simp: base_list_def s enqueueUpdate_frame uq1 split: option.splits)
  have uq2: "updateQueue (fibers (scheduleUpdate fiber u w) fiber) = Some q"
    using q1 by (simp add: s enqueueUpdate_frame)
  show "queue_holds (scheduleUpdate fiber u w) fiber q xs (ys @ [update_count w])"
    using uq2 bl2 pl2 sh2 [of q] d notin lt cnt2
    by (auto simp: queue_holds_def less_Suc_eq)
  show "queue_content (scheduleUpdate fiber u w) (xs @ ys @ [update_count w]) =
         queue_content w (xs @ ys) @ [content u]"
    using lt by (simp add: queue_content_def c2 old new)
  show "baseState (updateQueues (scheduleUpdate fiber u w) q) = baseState (updateQueues w q)"
    by (simp add: s enqueueUpdate_frame uq1)
  show "memoizedState (fibers (scheduleUpdate fiber u w) f) = memoizedState (fibers w f)"
    by (simp add: s enqueueUpdate_frame w1_def)
qed

lemma initializeUpdateQueue_queue_holds:
  "queue_holds (initializeUpdateQueue w fiber) fiber (updateQueue_count w) [] []"
  "baseState (updateQueues (initializeUpdateQueue w fiber) (updateQueue_count w)) =
     memoizedState (fibers w fiber)"
  "memoizedState (fibers (initializeUpdateQueue w fiber) fiber) = memoizedState (fibers w fiber)"
  by (simp_all add: initializeUpdateQueue_def Let_def queue_holds_def base_list_def
      pending_list_def)

lemma schedule_all_queue_holds:
  assumes "queue_holds w fiber q xs ys"
  shows "\<exists>zs. queue_holds (schedule_all fiber us w) fiber q xs (ys @ zs) \<and>
           queue_content (schedule_all fiber us w) (xs @ ys @ zs) =
             queue_content w (xs @ ys) @ map content us \<and>
           baseState (updateQueues (schedule_all fiber us w) q) = baseState (updateQueues w q) \<and>
           memoizedState (fibers (schedule_all fiber us w) fiber) = memoizedState (fibers w fiber)"
  using assms
proof (induction us arbitrary: w ys)
  case Nil
  then show ?case by (intro exI [of _ "[]"]) (simp add: schedule_all_def)
next
  case (Cons u us)
  let ?w = "scheduleUpdate fiber u w"
  note s = scheduleUpdate_queue_holds [OF Cons.prems, of u]
  from Cons.IH [OF s(1)] obtain zs where
    z: "queue_holds (schedule_all fiber us ?w) fiber q xs ((ys @ [update_count w]) @ zs)"
      "queue_content (schedule_all fiber us ?w) (xs @ (ys @ [update_count w]) @ zs) =
         queue_content ?w (xs @ ys @ [update_count w]) @ map content us"
      "baseState (updateQueues (schedule_all fiber us ?w) q) = baseState (updateQueues ?w q)"
      "memoizedState (fibers (schedule_all fiber us ?w) fiber) = memoizedState (fibers ?w fiber)"
    by auto
  have e: "schedule_all fiber (u # us) w = schedule_all fiber us ?w"
    by (simp add: schedule_all_def)
  show ?case
    using z s(2,3) s(4) [of fiber]
    by (intro exI [of _ "update_count w # zs"]) (simp add: e)
qed

lemma next_state_rebase_clone [simp]:
  "next_state props inst (rebase_clone r u) = next_state props inst u"
  by (simp add: rebase_clone_def next_state_def)

lemma fold_next_state_rebase:
  "fold (next_state props inst) (map (rebase_clone r) us) s = fold (next_state props inst) us s"
  by (induction us arbitrary: s) simp_all

lemma fold_takeWhile_dropWhile:
  "fold f (dropWhile P us) (fold f (takeWhile P us) s) = fold f us s"
  by (metis fold_append takeWhile_dropWhile_id comp_apply)

lemma processUpdateQueue_replays:
  assumes rp: "replays props inst rf final w fiber q"
  shows "\<exists>w'. processUpdateQueue w fiber props inst r = Some (None, w') \<and>
           replays props inst rf final w' fiber q \<and>
           (r \<le> rf \<longrightarrow> memoizedState (fibers w' fiber) = final)"
proof -
  from rp obtain xs ys where h: "queue_holds w fiber q xs ys"
    and tot: "fold (next_state props inst) (queue_content w (xs @ ys))
                (baseState (updateQueues w q)) = final"
    and tm: "\<forall>u \<in> set (queue_content w (xs @ ys)). rf \<le> expirationTime u"
    and em: "xs @ ys = [] \<longrightarrow> memoizedState (fibers w fiber) = final"
    and sy: "xs @ ys \<noteq> [] \<longrightarrow> rf \<le> Sync"
    by (auto simp: replays_def)
  let ?us = "queue_content w (xs @ ys)"
  let ?base = "baseState (updateQueues w q)"
  let ?P = "\<lambda>u. r \<le> expirationTime u"
  define A where "A = abs_run r props inst ?base ?us"
  let ?N = "update_count w"
  let ?cs = "[?N..<?N + length (a_clones A)]"
  from processUpdateQueue_pass [OF h, where r = r and props = props and inst = inst, folded A_def]
  obtain w' where p: "processUpdateQueue w fiber props inst r = Some (None, w')"
    and h': "queue_holds w' fiber q ?cs []"
    and c': "queue_content w' ?cs = a_clones A"
    and b': "baseState (updateQueues w' q) = (if a_clones A = [] then a_state A else a_base A)"
    and m': "memoizedState (fibers w' fiber) =
        (if xs @ ys = [] then memoizedState (fibers w fiber) else a_state A)"
    by auto
  have cl: "a_clones A = map (rebase_clone r) (dropWhile ?P ?us)"
    and ba: "a_base A = (if dropWhile ?P ?us = [] then JNull
                         else fold (next_state props inst) (takeWhile ?P ?us) ?base)"
    using fold_abs_step_clones [of "\<lparr>a_clones = [], a_state = ?base, a_base = JNull,
        a_time = NoWork\<rparr>" r props inst ?us]
    by (simp_all add: A_def abs_run_def)
  have st: "a_state A = fold (next_state props inst) (filter ?P ?us) ?base"
    using fold_abs_step_state [of r props inst ?us] by (simp add: A_def abs_run_def)
  have base': "baseState (updateQueues w' q) =
      fold (next_state props inst) (takeWhile ?P ?us) ?base"
  proof (cases "dropWhile ?P ?us = []")
    case True
    then have all: "\<forall>u \<in> set ?us. ?P u" by (simp add: dropWhile_eq_Nil_conv)
    then have f: "filter ?P ?us = ?us" and t: "takeWhile ?P ?us = ?us"
      by (simp_all add: takeWhile_eq_all_conv)
    have "a_clones A = []" using True cl by simp
    then have "baseState (updateQueues w' q) = a_state A" using b' by simp
    then show ?thesis by (simp only: st f t)
  next
    case False
    then have "a_clones A \<noteq> []" using cl by simp
    then have "baseState (updateQueues w' q) = a_base A" using b' by simp
    also have "\<dots> = fold (next_state props inst) (takeWhile ?P ?us) ?base"
      using False by (simp only: ba if_False)
    finally show ?thesis .
  qed
  have tot': "fold (next_state props inst) (queue_content w' (?cs @ []))
               (baseState (updateQueues w' q)) = final"
  proof -
    have "queue_content w' ?cs = map (rebase_clone r) (dropWhile ?P ?us)"
      using c' by (simp only: cl [symmetric])
    then show ?thesis
      using tot by (simp only: append_Nil2 base' fold_next_state_rebase fold_takeWhile_dropWhile)
  qed
  have ne_sync: "rf \<le> Sync" if "a_clones A \<noteq> []"
  proof -
    have "?us \<noteq> []" using that cl by auto
    then show ?thesis using sy by (simp add: queue_content_def)
  qed
  have tm': "\<forall>u \<in> set (queue_content w' (?cs @ [])). rf \<le> expirationTime u"
  proof
    fix u assume "u \<in> set (queue_content w' (?cs @ []))"
    then obtain u0 where u0: "u0 \<in> set (dropWhile ?P ?us)" and u: "u = rebase_clone r u0"
      using c' cl by auto
    have "u0 \<in> set ?us" using u0 by (rule set_dropWhileD)
    then have 1: "rf \<le> expirationTime u0" using tm by simp
    have "a_clones A \<noteq> []" using u0 cl by (cases "dropWhile ?P ?us") auto
    then have 2: "rf \<le> Sync" by (rule ne_sync)
    show "rf \<le> expirationTime u" using 1 2 by (simp add: u rebase_clone_def)
  qed
  have full: "a_state A = final" if "\<forall>u \<in> set ?us. ?P u"
  proof -
    have "filter ?P ?us = ?us" using that by simp
    then show ?thesis using st tot by simp
  qed
  have em': "?cs @ [] = [] \<longrightarrow> memoizedState (fibers w' fiber) = final"
  proof
    assume "?cs @ [] = []"
    then have "a_clones A = []" by auto
    then have "dropWhile ?P ?us = []" using cl by simp
    then have "\<forall>u \<in> set ?us. ?P u" by (simp add: dropWhile_eq_Nil_conv)
    then show "memoizedState (fibers w' fiber) = final"
      using full m' em by auto
  qed
  have sy': "?cs @ [] \<noteq> [] \<longrightarrow> rf \<le> Sync"
    using ne_sync by auto
  have rp': "replays props inst rf final w' fiber q"
    unfolding replays_def using h' tot' tm' em' sy' by blast
  have fin: "memoizedState (fibers w' fiber) = final" if "r \<le> rf"
  proof -
    have "\<forall>u \<in> set ?us. ?P u" using tm that by auto
    then show ?thesis using full m' em by auto
  qed
  show ?thesis using p rp' fin by blast
qed

lemma process_passes_replays:
  assumes "replays props inst rf final w fiber q"
  shows "\<exists>w'. process_passes w fiber props inst rs = Some (None, w') \<and>
           replays props inst rf final w' fiber q"
  using assms
proof (induction rs arbitrary: w)
  case Nil
  then show ?case by simp
next
  case (Cons r rs)
  from processUpdateQueue_replays [OF Cons.prems, of r]
  obtain w1 where 1: "processUpdateQueue w fiber props inst r = Some (None, w1)"
    and 2: "replays props inst rf final w1 fiber q" by blast
  from Cons.IH [OF 2] show ?case by (simp add: 1)
qed

lemma process_passes_append:
  "process_passes w fiber props inst (rs @ [r]) =
     (case process_passes w fiber props inst rs of
        None \<Rightarrow> None
      | Some (Some e, w') \<Rightarrow> Some (Some e, w')
      | Some (None, w') \<Rightarrow> processUpdateQueue w' fiber props inst r)"
  by (induction rs arbitrary: w) (auto split: option.splits prod.splits)

lemma fold_next_state_content:
  "fold (next_state props inst) (map content us) s = fold (next_state props inst) us s"
  by (induction us arbitrary: s) (simp_all add: next_state_def)

lemma scheduled_replays:
  assumes "\<forall>u \<in> set us. rf \<le> expirationTime u \<and> expirationTime u \<le> Sync"
  shows "replays props inst rf
           (fold (next_state props inst) us (memoizedState (fibers w fiber)))
           (schedule_all fiber us (initializeUpdateQueue w fiber)) fiber (updateQueue_count w)"
proof -
  let ?w0 = "initializeUpdateQueue w fiber"
  let ?q = "updateQueue_count w"
  have h0: "queue_holds ?w0 fiber ?q [] []"
    by (rule initializeUpdateQueue_queue_holds)
  from schedule_all_queue_holds [OF h0, where us = us]
  obtain zs where h: "queue_holds (schedule_all fiber us ?w0) fiber ?q [] zs"
    and c: "queue_content (schedule_all fiber us ?w0) zs = map content us"
    and b: "baseState (updateQueues (schedule_all fiber us ?w0) ?q) =
            memoizedState (fibers w fiber)"
    and m: "memoizedState (fibers (schedule_all fiber us ?w0) fiber) =
            memoizedState (fibers w fiber)"
    by (auto simp: queue_content_def initializeUpdateQueue_queue_holds)
  have e: "zs = [] \<longleftrightarrow> us = []"
    using c by (auto simp: queue_content_def)
  have s: "zs \<noteq> [] \<longrightarrow> rf \<le> Sync"
  proof
    assume "zs \<noteq> []"
    then obtain u where "u \<in> set us" using e by (cases us) auto
    then show "rf \<le> Sync" using assms by force
  qed
  show ?thesis
    unfolding replays_def
    using h c b m e s assms
    by (intro exI [of _ "[]"] exI [of _ zs]) (auto simp: fold_next_state_content)
qed

text \<open>
  C1. Take any world, initialise the update queue of a fiber (its base state is the
  memoized state of the fiber) and schedule the updates \<open>us\<close> in order, with arbitrary
  expiration times that are valid, that is at most \<open>Sync\<close>. Let \<open>rf\<close> be a render
  expiration time that is at most the expiration time of every update. Then
  \<open>processUpdateQueue\<close> at \<open>rf\<close> returns, and so does any sequence of passes at render
  expiration times \<open>rs\<close> followed by a pass at \<open>rf\<close>, with the same props and instance;
  both leave the same memoized state, the one obtained by applying all updates in
  insertion order to the base state.
\<close>

theorem processUpdateQueue_order_independent:
  assumes "\<forall>u \<in> set us. rf \<le> expirationTime u \<and> expirationTime u \<le> Sync"
    and "w0 = schedule_all fiber us (initializeUpdateQueue w fiber)"
  shows "\<exists>w1 wk.
           processUpdateQueue w0 fiber props inst rf = Some (None, w1) \<and>
           process_passes w0 fiber props inst (rs @ [rf]) = Some (None, wk) \<and>
           memoizedState (fibers wk fiber) = memoizedState (fibers w1 fiber) \<and>
           memoizedState (fibers w1 fiber) =
             fold (next_state props inst) us (memoizedState (fibers w fiber))"
proof -
  let ?final = "fold (next_state props inst) us (memoizedState (fibers w fiber))"
  let ?q = "updateQueue_count w"
  have r0: "replays props inst rf ?final w0 fiber ?q"
    unfolding assms(2) by (rule scheduled_replays [OF assms(1)])
  from processUpdateQueue_replays [OF r0, of rf]
  obtain w1 where 1: "processUpdateQueue w0 fiber props inst rf = Some (None, w1)"
    and m1: "memoizedState (fibers w1 fiber) = ?final" by auto
  from process_passes_replays [OF r0, of rs]
  obtain w' where 2: "process_passes w0 fiber props inst rs = Some (None, w')"
    and r': "replays props inst rf ?final w' fiber ?q" by blast
  from processUpdateQueue_replays [OF r', of rf]
  obtain wk where 3: "processUpdateQueue w' fiber props inst rf = Some (None, wk)"
    and mk: "memoizedState (fibers wk fiber) = ?final" by auto
  have "process_passes w0 fiber props inst (rs @ [rf]) = Some (None, wk)"
    by (simp add: process_passes_append 2 3)
  then show ?thesis using 1 m1 mk by simp
qed

lemmas world_defs =
  mounted_def empty_world_def initializeUpdateQueue_def scheduleUpdate_def schedule_all_def
  createUpdate_def new_update_def set_next_def set_pending_def enqueueUpdate_def
  set_a_def set_b_def NoWork_def

theorem enqueueUpdate_appends_witness:
  "enqueueUpdate empty_world 0 0 = empty_world \<and>
   pending_list (enqueueUpdate (snd (createUpdate (scheduleUpdate 0 set_a mounted) 1 None)) 0 1)
     0 [0, 1] \<and>
   nx (enqueueUpdate (snd (createUpdate (scheduleUpdate 0 set_a mounted) 1 None)) 0 1) 1 = Some 0"
proof -
  let ?w = "snd (createUpdate (scheduleUpdate 0 set_a mounted) 1 None)"
  have 1: "updateQueue (fibers empty_world 0) = None" by (simp add: empty_world_def)
  have 2: "updateQueue (fibers ?w 0) = Some 0 \<and> pending_list ?w (shared (updateQueues ?w 0)) [0]
           \<and> 1 \<notin> set [0::nat]"
    by (simp add: world_defs pending_list_def nx_def Let_def)
  have 3: "shared (updateQueues ?w 0) = 0" by (simp add: world_defs Let_def)
  from enqueueUpdate_appends [of empty_world 0 0] 1
  have a: "enqueueUpdate empty_world 0 0 = empty_world" by blast
  from enqueueUpdate_appends [of ?w 0 1, THEN conjunct2, rule_format, OF 2]
  have b: "pending_list (enqueueUpdate ?w 0 1) 0 ([0] @ [1])"
    and c: "nx (enqueueUpdate ?w 0 1) 1 = Some (hd ([0] @ [1]))"
    by (simp_all only: 3)
  show ?thesis using a b c by simp
qed

theorem processUpdateQueue_order_independent_witness:
  "\<exists>w1 wk.
     processUpdateQueue (schedule_all 0 [set_a, set_b] mounted) 0 JNull JNull 1 =
       Some (None, w1) \<and>
     process_passes (schedule_all 0 [set_a, set_b] mounted) 0 JNull JNull [2, 1] =
       Some (None, wk) \<and>
     memoizedState (fibers wk 0) = JObject [(''a'', JNum 1), (''b'', JNum 2)] \<and>
     memoizedState (fibers w1 0) = JObject [(''a'', JNum 1), (''b'', JNum 2)]"
proof -
  have h: "\<forall>u \<in> set [set_a, set_b]. 1 \<le> expirationTime u \<and> expirationTime u \<le> Sync"
    by (simp add: set_a_def set_b_def Sync_def MAX_SIGNED_31_BIT_INT_def)
  have f: "fold (next_state JNull JNull) [set_a, set_b]
             (memoizedState (fibers (empty_world\<lparr>fibers := (fibers empty_world)
                (0 := (fibers empty_world 0)\<lparr>memoizedState := JObject []\<rparr>)\<rparr>) 0)) =
           JObject [(''a'', JNum 1), (''b'', JNum 2)]"
    by (simp add: next_state_def reduce_state_def payload_result_def set_a_def set_b_def
        Object_assign_def assign_properties_def)
  have w0: "schedule_all 0 [set_a, set_b] mounted =
      schedule_all 0 [set_a, set_b] (initializeUpdateQueue
        (empty_world\<lparr>fibers := (fibers empty_world)(0 := (fibers empty_world 0)
           \<lparr>memoizedState := JObject []\<rparr>)\<rparr>) 0)"
    by (simp only: mounted_def)
  from processUpdateQueue_order_independent [OF h w0, of JNull JNull "[2]"]
  obtain w1 wk where
    1: "processUpdateQueue (schedule_all 0 [set_a, set_b] mounted) 0 JNull JNull 1 =
          Some (None, w1)"
    and 2: "process_passes (schedule_all 0 [set_a, set_b] mounted) 0 JNull JNull ([2] @ [1]) =
          Some (None, wk)"
    and 3: "memoizedState (fibers wk 0) = memoizedState (fibers w1 0)"
    and 4: "memoizedState (fibers w1 0) = JObject [(''a'', JNum 1), (''b'', JNum 2)]"
    unfolding f by blast
  have p2: "process_passes (schedule_all 0 [set_a, set_b] mounted) 0 JNull JNull [2, 1] =
          Some (None, wk)"
    using 2 by (simp only: append_Cons append_Nil)
  show ?thesis using 1 p2 3 4 by (intro exI [of _ w1] exI [of _ wk]) (simp only: simp_thms)
qed

text \<open>
  C2. Let the queue of the fiber hold, base queue first and pending updates behind, the
  updates \<open>us\<close>, all with an expiration time of at least \<open>NoWork\<close>, and let \<open>skipped\<close> be
  those below the render expiration time \<open>r\<close>. Then \<open>processUpdateQueue\<close> returns, and
  afterwards: if some update is skipped, \<open>baseState\<close> is the state obtained from the
  updates before the first skipped one, \<open>baseQueue\<close> is a circular list of newly allocated
  updates that are, in order, the updates from the first skipped one on, each with its own
  expiration time if it is skipped and with \<open>Sync\<close> if it is applied, and the expiration
  time of the fiber is the largest expiration time of a skipped update; if none is
  skipped, \<open>baseState\<close> is the state obtained from all updates, which for a non-empty
  queue is the memoized state, and \<open>baseQueue\<close> is \<open>null\<close>.
\<close>

theorem processUpdateQueue_rebases:
  assumes "queue_holds w fiber q xs ys"
    and "us = queue_content w (xs @ ys)"
    and "\<forall>u \<in> set us. NoWork \<le> expirationTime u"
    and "skipped = filter (\<lambda>u. expirationTime u < r) us"
  shows "\<exists>w'. processUpdateQueue w fiber props inst r = Some (None, w') \<and>
     (skipped \<noteq> [] \<longrightarrow>
        baseState (updateQueues w' q) =
          fold (next_state props inst) (takeWhile (\<lambda>u. r \<le> expirationTime u) us)
            (baseState (updateQueues w q)) \<and>
        (\<exists>cs. base_list w' q cs \<and> cs \<noteq> [] \<and> (\<forall>c \<in> set cs. update_count w \<le> c) \<and>
              queue_content w' cs =
                map (rebase_clone r) (dropWhile (\<lambda>u. r \<le> expirationTime u) us)) \<and>
        expirationTime_fiber (fibers w' fiber) = Max (set (map expirationTime skipped))) \<and>
     (skipped = [] \<longrightarrow>
        baseState (updateQueues w' q) =
          fold (next_state props inst) us (baseState (updateQueues w q)) \<and>
        baseQueue (updateQueues w' q) = None \<and>
        (us \<noteq> [] \<longrightarrow> memoizedState (fibers w' fiber) = baseState (updateQueues w' q)))"
proof -
  let ?base = "baseState (updateQueues w q)"
  let ?P = "\<lambda>u. r \<le> expirationTime u"
  let ?N = "update_count w"
  define A where "A = abs_run r props inst ?base us"
  let ?cs = "[?N..<?N + length (a_clones A)]"
  from processUpdateQueue_pass [OF assms(1), where r = r and props = props and inst = inst,
      folded assms(2), folded A_def]
  obtain w' where p: "processUpdateQueue w fiber props inst r = Some (None, w')"
    and h': "queue_holds w' fiber q ?cs []"
    and c': "queue_content w' ?cs = a_clones A"
    and b': "baseState (updateQueues w' q) = (if a_clones A = [] then a_state A else a_base A)"
    and m': "memoizedState (fibers w' fiber) =
        (if xs @ ys = [] then memoizedState (fibers w fiber) else a_state A)"
    and t': "expirationTime_fiber (fibers w' fiber) =
        (if xs @ ys = [] then expirationTime_fiber (fibers w fiber) else a_time A)"
    by auto
  have cl: "a_clones A = map (rebase_clone r) (dropWhile ?P us)"
    and ba: "a_base A = (if dropWhile ?P us = [] then JNull
                         else fold (next_state props inst) (takeWhile ?P us) ?base)"
    using fold_abs_step_clones [of "\<lparr>a_clones = [], a_state = ?base, a_base = JNull,
        a_time = NoWork\<rparr>" r props inst us]
    by (simp_all add: A_def abs_run_def)
  have st: "a_state A = fold (next_state props inst) (filter ?P us) ?base"
    using fold_abs_step_state [of r props inst us] by (simp add: A_def abs_run_def)
  have ti: "a_time A = fold max (map expirationTime skipped) NoWork"
    using fold_abs_step_time [of r props inst us] by (simp add: A_def abs_run_def assms(4))
  have sk: "skipped = [] \<longleftrightarrow> (\<forall>u \<in> set us. ?P u)"
    by (auto simp: assms(4) filter_empty_conv)
  have dr: "dropWhile ?P us = [] \<longleftrightarrow> (\<forall>u \<in> set us. ?P u)"
    by (simp add: dropWhile_eq_Nil_conv)
  have ne: "xs @ ys = [] \<longleftrightarrow> us = []"
    by (simp add: assms(2) queue_content_def)
  have skip: "baseState (updateQueues w' q) =
          fold (next_state props inst) (takeWhile ?P us) ?base \<and>
        (\<exists>cs. base_list w' q cs \<and> cs \<noteq> [] \<and> (\<forall>c \<in> set cs. ?N \<le> c) \<and>
              queue_content w' cs = map (rebase_clone r) (dropWhile ?P us)) \<and>
        expirationTime_fiber (fibers w' fiber) = Max (set (map expirationTime skipped))"
    if s: "skipped \<noteq> []"
  proof -
    have d: "dropWhile ?P us \<noteq> []" using s sk dr by blast
    then have cne: "a_clones A \<noteq> []" using cl by simp
    have 1: "baseState (updateQueues w' q) =
          fold (next_state props inst) (takeWhile ?P us) ?base"
      using b' cne ba d by auto
    have bl: "base_list w' q ?cs" using h' by (simp add: queue_holds_def)
    have cs: "?cs \<noteq> []" "\<forall>c \<in> set ?cs. ?N \<le> c" using cne by auto
    have 2: "\<exists>cs. base_list w' q cs \<and> cs \<noteq> [] \<and> (\<forall>c \<in> set cs. ?N \<le> c) \<and>
              queue_content w' cs = map (rebase_clone r) (dropWhile ?P us)"
      using bl cs c' cl by (intro exI [of _ ?cs]) (simp only: simp_thms)
    have "us \<noteq> []" using s by (auto simp: assms(4))
    then have "expirationTime_fiber (fibers w' fiber) = a_time A" using t' ne by auto
    also have "\<dots> = Max (set (map expirationTime skipped))"
      unfolding ti using s assms(3) by (intro fold_max_NoWork) (auto simp: assms(4))
    finally show ?thesis using 1 2 by blast
  qed
  have noskip: "baseState (updateQueues w' q) = fold (next_state props inst) us ?base \<and>
        baseQueue (updateQueues w' q) = None \<and>
        (us \<noteq> [] \<longrightarrow> memoizedState (fibers w' fiber) = baseState (updateQueues w' q))"
    if s: "skipped = []"
  proof -
    have all: "\<forall>u \<in> set us. ?P u" using s sk by blast
    then have f: "filter ?P us = us" by simp
    have ce: "a_clones A = []" using cl all dr by simp
    have 1: "baseState (updateQueues w' q) = fold (next_state props inst) us ?base"
      using b' ce st f by simp
    have "base_list w' q []" using h' ce by (simp add: queue_holds_def)
    then have 2: "baseQueue (updateQueues w' q) = None"
      by (simp add: base_list_def split: option.splits)
    have 3: "us \<noteq> [] \<longrightarrow> memoizedState (fibers w' fiber) = baseState (updateQueues w' q)"
      using m' ne b' ce by auto
    show ?thesis using 1 2 3 by blast
  qed
  show ?thesis using p skip noskip by blast
qed

theorem processUpdateQueue_rebases_witness:
  "\<exists>w'. processUpdateQueue (schedule_all 0 [set_a, set_b] mounted) 0 JNull JNull 2 =
          Some (None, w') \<and>
        baseState (updateQueues w' 0) = JObject [(''a'', JNum 1)] \<and>
        (\<exists>cs. base_list w' 0 cs \<and> cs \<noteq> [] \<and> queue_content w' cs = [content set_b]) \<and>
        expirationTime_fiber (fibers w' 0) = 1"
proof -
  let ?w = "schedule_all 0 [set_a, set_b] mounted"
  have h: "queue_holds ?w 0 0 [] [0, 1]"
    by (simp add: queue_holds_def base_list_def pending_list_def nx_def world_defs Let_def)
  have u: "[content set_a, content set_b] = queue_content ?w ([] @ [0, 1])"
    by (simp add: queue_content_def world_defs Let_def content_def)
  have t: "\<forall>u \<in> set [content set_a, content set_b]. NoWork \<le> expirationTime u"
    by (simp add: set_a_def set_b_def NoWork_def)
  have s: "[content set_b] =
      filter (\<lambda>u. expirationTime u < 2) [content set_a, content set_b]"
    by (simp add: set_a_def set_b_def)
  have b: "baseState (updateQueues ?w 0) = JObject []"
    by (simp add: world_defs Let_def)
  from processUpdateQueue_rebases [OF h u t s, of JNull JNull]
  obtain w' where p: "processUpdateQueue ?w 0 JNull JNull 2 = Some (None, w')"
    and r: "baseState (updateQueues w' 0) =
          fold (next_state JNull JNull)
            (takeWhile (\<lambda>u. 2 \<le> expirationTime u) [content set_a, content set_b])
            (baseState (updateQueues ?w 0)) \<and>
        (\<exists>cs. base_list w' 0 cs \<and> cs \<noteq> [] \<and> (\<forall>c \<in> set cs. update_count ?w \<le> c) \<and>
              queue_content w' cs =
                map (rebase_clone 2)
                  (dropWhile (\<lambda>u. 2 \<le> expirationTime u) [content set_a, content set_b])) \<and>
        expirationTime_fiber (fibers w' 0) = Max (set (map expirationTime [content set_b]))"
    by blast
  have 1: "fold (next_state JNull JNull)
            (takeWhile (\<lambda>u. 2 \<le> expirationTime u) [content set_a, content set_b])
            (baseState (updateQueues ?w 0)) = JObject [(''a'', JNum 1)]"
    unfolding b
    by (simp add: next_state_def reduce_state_def payload_result_def set_a_def set_b_def
        Object_assign_def assign_properties_def)
  have 2: "map (rebase_clone 2)
             (dropWhile (\<lambda>u. 2 \<le> expirationTime u) [content set_a, content set_b]) =
           [content set_b]"
    by (simp add: rebase_clone_def set_a_def set_b_def)
  have 3: "Max (set (map expirationTime [content set_b])) = 1"
    by (simp add: set_b_def)
  show ?thesis using p r unfolding 1 2 3 by blast
qed

lemma commit_effects_sel [simp]:
  "update_count (snd (commit_effects w inst es)) = update_count w"
  "sharedQueues (snd (commit_effects w inst es)) = sharedQueues w"
  "updateQueues (snd (commit_effects w inst es)) = updateQueues w"
  "arrays (snd (commit_effects w inst es)) = arrays w"
  "fibers (snd (commit_effects w inst es)) = fibers w"
  "hasForceUpdate (snd (commit_effects w inst es)) = hasForceUpdate w"
  by (induction w inst es rule: commit_effects.induct;
      simp add: callCallback_def Let_def split: option.splits CallbackValue.splits prod.splits)+

lemma commit_effects_disarmed:
  "\<forall>r \<in> set es. callback (updates w r) = None \<Longrightarrow> commit_effects w inst es = (None, w)"
  by (induction es) simp_all

lemma commit_effects_calls:
  "\<exists>called.
     commit_calls w (snd (commit_effects w inst es)) inst es called \<and>
     (fst (commit_effects w inst es) = None \<longrightarrow>
        (\<forall>r \<in> set es. callback (updates (snd (commit_effects w inst es)) r) = None))"
proof (induction es arbitrary: w)
  case Nil
  show ?case by (intro exI [of _ "[]"]) (simp add: commit_calls_def)
next
  case (Cons r es)
  show ?case
  proof (cases "callback (updates w r)")
    case None
    from Cons.IH [of w] obtain called where
      c: "commit_calls w (snd (commit_effects w inst es)) inst es called"
      and d: "fst (commit_effects w inst es) = None \<longrightarrow>
        (\<forall>r \<in> set es. callback (updates (snd (commit_effects w inst es)) r) = None)"
      by (elim exE conjE) (rule that)
    have "updates (snd (commit_effects w inst es)) r = updates w r \<or>
          updates (snd (commit_effects w inst es)) r = (updates w r)\<lparr>callback := None\<rparr>"
      using c by (auto simp: commit_calls_def)
    then have r: "callback (updates (snd (commit_effects w inst es)) r) = None"
      using None by auto
    show ?thesis
      using c d r None by (intro exI [of _ called]) (auto simp: commit_calls_def)
  next
    case (Some cb)
    let ?w = "w\<lparr>updates := (updates w)(r := (updates w r)\<lparr>callback := None\<rparr>)\<rparr>"
    show ?thesis
    proof (cases cb)
      case (NotAFunction x)
      then show ?thesis using Some
        by (intro exI [of _ "[]"]) (simp add: callCallback_def commit_calls_def)
    next
      case (Fn name thrown)
      let ?w1 = "?w\<lparr>trace := trace w @ [CallbackCalled name inst]\<rparr>"
      have ev: "call_event w inst r = CallbackCalled name inst"
        using Some Fn by (simp add: call_event_def)
      show ?thesis
      proof (cases thrown)
        case (Some e)
        then show ?thesis
          using \<open>callback (updates w r) = Some cb\<close> Fn ev
          by (intro exI [of _ "[r]"]) (simp add: callCallback_def commit_calls_def)
      next
        case None
        have step: "commit_effects w inst (r # es) = commit_effects ?w1 inst es"
          using \<open>callback (updates w r) = Some cb\<close> Fn None by (simp add: callCallback_def)
        let ?w' = "snd (commit_effects ?w1 inst es)"
        from Cons.IH [of ?w1] obtain called where
          c: "commit_calls ?w1 ?w' inst es called"
          and d: "fst (commit_effects ?w1 inst es) = None \<longrightarrow>
            (\<forall>x \<in> set es. callback (updates ?w' x) = None)"
          by (elim exE conjE) (rule that)
        from c have c1: "trace ?w' = trace ?w1 @ map (call_event ?w1 inst) called"
          and c2: "distinct called" and c3: "set called \<subseteq> set es"
          and c4: "\<And>x. x \<in> set called \<Longrightarrow>
              (\<exists>name thrown. callback (updates ?w1 x) = Some (Fn name thrown)) \<and>
              callback (updates ?w' x) = None"
          and c5: "\<And>x. updates ?w' x = updates ?w1 x \<or>
              (x \<in> set es \<and> updates ?w' x = (updates ?w1 x)\<lparr>callback := None\<rparr>)"
          by (auto simp: commit_calls_def)
        have rn: "r \<notin> set called" using c4 [of r] by auto
        have same: "call_event ?w1 inst x = call_event w inst x" if "x \<in> set called" for x
          using that rn by (auto simp: call_event_def)
        have m: "map (call_event ?w1 inst) called = map (call_event w inst) called"
          by (rule map_cong) (simp_all add: same)
        have rr: "callback (updates ?w' r) = None"
          using c5 [of r] by auto
        have t: "trace ?w' = trace w @ map (call_event w inst) (r # called)"
          using c1 m ev by simp
        have a: "(\<exists>name thrown. callback (updates w x) = Some (Fn name thrown)) \<and>
              callback (updates ?w' x) = None" if "x \<in> set (r # called)" for x
          using that c4 [of x] rr \<open>callback (updates w r) = Some cb\<close> Fn rn
          by (cases "x = r") auto
        have u: "updates ?w' x = updates w x \<or>
              (x \<in> set (r # es) \<and> updates ?w' x = (updates w x)\<lparr>callback := None\<rparr>)" for x
          using c5 [of x] by (cases "x = r") auto
        have cc: "commit_calls w ?w' inst (r # es) (r # called)"
          unfolding commit_calls_def using t c2 rn c3 a u by auto
        have dd: "fst (commit_effects ?w1 inst es) = None \<longrightarrow>
            (\<forall>x \<in> set (r # es). callback (updates ?w' x) = None)"
          using d rr by auto
        show ?thesis unfolding step by (intro exI [of _ "r # called"] conjI cc dd)
      qed
    qed
  qed
qed

lemma commitUpdateQueue_eq:
  "commitUpdateQueue w finishedWork q inst =
     commit_effects (w\<lparr>updateQueues := (updateQueues w)(q := (updateQueues w q)\<lparr>effects := None\<rparr>)\<rparr>)
       inst (effects_list w q)"
  by (simp add: commitUpdateQueue_def effects_list_def Let_def split: option.splits)

lemma clear_effects_idem:
  "effects (updateQueues w q) = None \<Longrightarrow>
   w\<lparr>updateQueues := (updateQueues w)(q := (updateQueues w q)\<lparr>effects := None\<rparr>)\<rparr> = w"
  by (cases w) (auto simp: fun_eq_iff)

text \<open>
  C10. After \<open>commitUpdateQueue\<close>, whether it returns or throws, \<open>finishedQueue.effects\<close> is
  \<open>null\<close>, and a second call on the same queue returns without changing anything. The
  calls made are calls of the callbacks of distinct updates of the effects array, each of
  which had a function as callback before and has \<open>null\<close> afterwards; no update gets a
  callback that it did not have. When the call returns, every update of the array has the
  callback \<open>null\<close>, and committing any queue whose effects array holds only such updates
  calls nothing and changes no update.
\<close>

theorem commitUpdateQueue_at_most_once:
  assumes "commitUpdateQueue w finishedWork q inst = (e, w')"
  shows "effects (updateQueues w' q) = None \<and>
    commitUpdateQueue w' finishedWork2 q inst2 = (None, w') \<and>
    (\<exists>called. commit_calls w w' inst (effects_list w q) called) \<and>
    (e = None \<longrightarrow>
       (\<forall>r \<in> set (effects_list w q). callback (updates w' r) = None) \<and>
       (\<forall>q2. set (effects_list w' q2) \<subseteq> set (effects_list w q) \<longrightarrow>
          fst (commitUpdateQueue w' finishedWork2 q2 inst2) = None \<and>
          trace (snd (commitUpdateQueue w' finishedWork2 q2 inst2)) = trace w' \<and>
          updates (snd (commitUpdateQueue w' finishedWork2 q2 inst2)) = updates w'))"
proof -
  let ?w0 = "w\<lparr>updateQueues := (updateQueues w)(q := (updateQueues w q)\<lparr>effects := None\<rparr>)\<rparr>"
  let ?es = "effects_list w q"
  have c: "commit_effects ?w0 inst ?es = (e, w')"
    using assms by (simp add: commitUpdateQueue_eq)
  then have w': "w' = snd (commit_effects ?w0 inst ?es)" and e: "e = fst (commit_effects ?w0 inst ?es)"
    by simp_all
  have 1: "effects (updateQueues w' q) = None" by (simp add: w')
  have 2: "commitUpdateQueue w' finishedWork2 q inst2 = (None, w')"
    using 1 by (simp add: commitUpdateQueue_def clear_effects_idem)
  have "\<exists>called. commit_calls ?w0 w' inst ?es called \<and>
      (e = None \<longrightarrow> (\<forall>r \<in> set ?es. callback (updates w' r) = None))"
    using commit_effects_calls [of ?w0 inst ?es] by (simp only: c fst_conv snd_conv)
  then obtain called where
    cc: "commit_calls ?w0 w' inst ?es called"
    and d: "e = None \<longrightarrow> (\<forall>r \<in> set ?es. callback (updates w' r) = None)"
    by (elim exE conjE) (rule that)
  have "commit_calls w w' inst ?es called"
    using cc by (simp add: commit_calls_def call_event_def)
  then have 3: "\<exists>called. commit_calls w w' inst ?es called" ..
  have 4: "fst (commitUpdateQueue w' finishedWork2 q2 inst2) = None \<and>
          trace (snd (commitUpdateQueue w' finishedWork2 q2 inst2)) = trace w' \<and>
          updates (snd (commitUpdateQueue w' finishedWork2 q2 inst2)) = updates w'"
    if "e = None" and sub: "set (effects_list w' q2) \<subseteq> set ?es" for q2
  proof -
    let ?w2 = "w'\<lparr>updateQueues := (updateQueues w')(q2 := (updateQueues w' q2)\<lparr>effects := None\<rparr>)\<rparr>"
    have "\<forall>r \<in> set (effects_list w' q2). callback (updates ?w2 r) = None"
      using d that by auto
    from commit_effects_disarmed [OF this, of inst2]
    show ?thesis by (simp add: commitUpdateQueue_eq)
  qed
  show ?thesis using 1 2 3 d 4 by (intro conjI impI allI) auto
qed

theorem commitUpdateQueue_at_most_once_witness:
  "trace (snd (commitUpdateQueue commit_example 0 0 JNull)) =
     [CallbackCalled 7 JNull, CallbackCalled 8 JNull] \<and>
   effects (updateQueues (snd (commitUpdateQueue commit_example 0 0 JNull)) 0) = None \<and>
   commitUpdateQueue (snd (commitUpdateQueue commit_example 0 0 JNull)) 0 0 JNull =
     (None, snd (commitUpdateQueue commit_example 0 0 JNull)) \<and>
   trace (snd (commitUpdateQueue (snd (commitUpdateQueue commit_example 0 0 JNull)) 0 1 JNull)) =
     [CallbackCalled 7 JNull, CallbackCalled 8 JNull]"
proof -
  let ?w' = "snd (commitUpdateQueue commit_example 0 0 JNull)"
  have t: "trace ?w' = [CallbackCalled 7 JNull, CallbackCalled 8 JNull]"
    and e: "fst (commitUpdateQueue commit_example 0 0 JNull) = None"
    by (simp_all add: commit_example_def empty_world_def commitUpdateQueue_def callCallback_def
        Let_def)
  have c: "commitUpdateQueue commit_example 0 0 JNull = (None, ?w')"
    using e by (simp add: prod_eq_iff)
  have l: "effects_list commit_example 0 = [0, 1, 0]"
    by (simp add: effects_list_def commit_example_def empty_world_def)
  have l1: "set (effects_list ?w' 1) \<subseteq> set (effects_list commit_example 0)"
    by (simp add: effects_list_def commit_example_def empty_world_def commitUpdateQueue_def
        callCallback_def Let_def)
  note main = commitUpdateQueue_at_most_once [OF c, of 0 JNull]
  have 1: "effects (updateQueues ?w' 0) = None" using main by blast
  have 2: "commitUpdateQueue ?w' 0 0 JNull = (None, ?w')" using main by blast
  have 3: "trace (snd (commitUpdateQueue ?w' 0 1 JNull)) = trace ?w'"
    using main l1 by blast
  show ?thesis using t 1 2 3 by simp
qed

section \<open>Properties of the synchronous callback queue\<close>

text \<open>The equations of \<open>run\<close>, one for each piece of code.\<close>

lemma run_Enter_flushSyncCallbackQueue:
  "run Enter_flushSyncCallbackQueue s = run Enter_flushSyncCallbackQueueImpl (cancel_node s)"
  by (subst run.simps)
     (simp add: cancel_node_def Scheduler_cancelCallback_def split: option.split)

lemma run_Enter_flushSyncCallbackQueueImpl:
  "run Enter_flushSyncCallbackQueueImpl s =
     (case syncQueue s of
        None \<Rightarrow> Some (None, s)
      | Some queue \<Rightarrow>
          if \<not> isFlushingSyncQueue s
          then run (Loop_from queue 0) (s\<lparr>isFlushingSyncQueue := True\<rparr>)
          else Some (None, s))"
  by (subst run.simps) simp

lemma run_Loop_from:
  "run (Loop_from queue i) s =
     (if i < length (callbackArrays s queue) then
        Option.bind (run (Invoke (callbackArrays s queue ! i)) s) (\<lambda>(thrown, s).
          case thrown of
            None \<Rightarrow> run (Loop_from queue (Suc i)) s
          | Some e \<Rightarrow> Some (Some e, catch_finally i s))
      else Some (None, s\<lparr>syncQueue := None, isFlushingSyncQueue := False\<rparr>))"
  by (subst run.simps) simp

lemma run_Invoke:
  "run (Invoke Return_null) s = Some (None, s)"
  "run (Invoke (Return_continuation continuation)) s = run (Invoke continuation) s"
  "run (Invoke (Throw e)) s = Some (Some e, s)"
  "run (Invoke (Call_scheduleSyncCallback syncCallback rest)) s =
     run (Invoke rest) (scheduleSyncCallback syncCallback s)"
  "run (Invoke (Call_flushSyncCallbackQueue rest)) s =
     Option.bind (run Enter_flushSyncCallbackQueue s) (\<lambda>(thrown, s).
       case thrown of
         None \<Rightarrow> run (Invoke rest) s
       | Some e \<Rightarrow> Some (Some e, s))"
  by (subst run.simps, simp)+

lemma cancel_node_simps [simp]:
  "isFlushingSyncQueue (cancel_node s) = isFlushingSyncQueue s"
  "syncQueue (cancel_node s) = syncQueue s"
  "callbackArrays (cancel_node s) = callbackArrays s"
  "callbackArray_count (cancel_node s) = callbackArray_count s"
  "scheduled (cancel_node s) = scheduled s"
  "immediateQueueCallbackNode (cancel_node s) = None"
  "cancel_node (cancel_node s) = cancel_node s"
  by (simp_all add: cancel_node_def split: option.split)

lemma cancel_if_simps [simp]:
  "isFlushingSyncQueue (cancel_if b s) = isFlushingSyncQueue s"
  "syncQueue (cancel_if b s) = syncQueue s"
  "callbackArrays (cancel_if b s) = callbackArrays s"
  "callbackArray_count (cancel_if b s) = callbackArray_count s"
  "scheduled (cancel_if b s) = scheduled s"
  "cancel_if b (cancel_if b' s) = cancel_if (b \<or> b') s"
  "cancel_if False s = s"
  "cancel_if True s = cancel_node s"
  by (simp_all add: cancel_if_def)

lemma cancel_if_callbackArrays:
  "cancel_if b (s\<lparr>callbackArrays := f\<rparr>) = (cancel_if b s)\<lparr>callbackArrays := f\<rparr>"
  by (simp add: cancel_if_def cancel_node_def split: option.split)

lemma cancel_if_isFlushingSyncQueue:
  "cancel_if b (s\<lparr>isFlushingSyncQueue := l\<rparr>) = (cancel_if b s)\<lparr>isFlushingSyncQueue := l\<rparr>"
  by (simp add: cancel_if_def cancel_node_def split: option.split)

text \<open>
  While \<open>isFlushingSyncQueue\<close> is set, a call of either function returns without running a
  callback, and a callback invoked by the flush ends as \<open>outcome\<close> says, having pushed
  \<open>pushes\<close> onto the array that \<open>syncQueue\<close> refers to.
\<close>

lemma run_flush_locked:
  assumes "isFlushingSyncQueue s"
  shows "run Enter_flushSyncCallbackQueueImpl s = Some (None, s)"
    and "run Enter_flushSyncCallbackQueue s = Some (None, cancel_node s)"
  using assms
  by (simp_all add: run_Enter_flushSyncCallbackQueue run_Enter_flushSyncCallbackQueueImpl
      split: option.split)

lemma run_Invoke_locked:
  "isFlushingSyncQueue s \<Longrightarrow> syncQueue s = Some queue \<Longrightarrow>
   run (Invoke c) s =
     Some (outcome c,
       (cancel_if (flushes c) s)\<lparr>callbackArrays :=
          (callbackArrays s)(queue := callbackArrays s queue @ pushes c)\<rparr>)"
proof (induction c arbitrary: s)
  case Return_null
  then show ?case by (simp add: run_Invoke)
next
  case (Return_continuation c)
  then show ?case by (simp add: run_Invoke)
next
  case (Throw e)
  then show ?case by (simp add: run_Invoke)
next
  case (Call_scheduleSyncCallback c' rest)
  let ?s1 = "scheduleSyncCallback c' s"
  have s1: "?s1 = s\<lparr>callbackArrays :=
      (callbackArrays s)(queue := callbackArrays s queue @ [c'])\<rparr>"
    using Call_scheduleSyncCallback.prems by (simp add: scheduleSyncCallback_def)
  have "run (Invoke rest) ?s1 =
     Some (outcome rest,
       (cancel_if (flushes rest) ?s1)\<lparr>callbackArrays :=
          (callbackArrays ?s1)(queue := callbackArrays ?s1 queue @ pushes rest)\<rparr>)"
    using Call_scheduleSyncCallback.prems
    by (intro Call_scheduleSyncCallback.IH(2)) (simp_all add: s1)
  then have "run (Invoke rest) ?s1 =
     Some (outcome rest,
       (cancel_if (flushes rest) s)\<lparr>callbackArrays :=
          (callbackArrays s)(queue := callbackArrays s queue @ c' # pushes rest)\<rparr>)"
    by (simp add: s1 cancel_if_callbackArrays)
  then show ?case
    by (simp only: run_Invoke outcome.simps pushes.simps flushes.simps)
next
  case (Call_flushSyncCallbackQueue rest)
  have "run (Invoke rest) (cancel_node s) =
     Some (outcome rest,
       (cancel_if (flushes rest) (cancel_node s))\<lparr>callbackArrays :=
          (callbackArrays (cancel_node s))
            (queue := callbackArrays (cancel_node s) queue @ pushes rest)\<rparr>)"
    using Call_flushSyncCallbackQueue.prems
    by (intro Call_flushSyncCallbackQueue.IH) simp_all
  then have r: "run (Invoke rest) (cancel_node s) =
     Some (outcome rest,
       (cancel_node s)\<lparr>callbackArrays :=
          (callbackArrays s)(queue := callbackArrays s queue @ pushes rest)\<rparr>)"
    by (simp add: cancel_if_def)
  have "run (Invoke (Call_flushSyncCallbackQueue rest)) s = run (Invoke rest) (cancel_node s)"
    using Call_flushSyncCallbackQueue.prems by (simp add: run_Invoke run_flush_locked)
  then show ?case
    by (simp only: r outcome.simps pushes.simps flushes.simps cancel_if_simps)
qed

text \<open>
  A callback is a finite description, and the callbacks it schedules are parts of it: the
  callbacks scheduled by a list of callbacks are together smaller than the list, and none
  of them is scheduled by itself or by a callback behind it in the queue.
\<close>

lemma size_pushes: "size_list size (pushes c) \<le> size c"
  by (induction c) simp_all

lemma size_concat_pushes:
  "size_list size (concat (map pushes cs)) + length cs \<le> size_list size cs"
proof (induction cs)
  case Nil
  then show ?case by simp
next
  case (Cons c cs)
  then show ?case using size_pushes [of c] by (simp add: size_list_append)
qed

lemma pushes_not_self:
  "concat (map pushes (c # cs)) \<noteq> us @ c # cs @ vs"
proof
  assume a: "concat (map pushes (c # cs)) = us @ c # cs @ vs"
  have "size_list size (c # cs) \<le> size_list size (us @ c # cs @ vs)"
    by (simp add: size_list_append)
  also have "\<dots> = size_list size (concat (map pushes (c # cs)))" by (simp only: a)
  also have "\<dots> < size_list size (c # cs)"
    using size_concat_pushes [of "c # cs"] by simp
  finally show False by simp
qed

lemma next_in_queue:
  assumes "q @ concat (map pushes (c # cs)) = finished @ c # cs @ vs"
  shows "\<exists>ws. q = finished @ c # ws"
proof -
  from assms obtain ws where
    "q = finished @ ws \<and> ws @ concat (map pushes (c # cs)) = c # cs @ vs \<or>
     q @ ws = finished \<and> concat (map pushes (c # cs)) = ws @ c # cs @ vs"
    unfolding append_eq_append_conv2 by blast
  then show ?thesis
  proof
    assume a: "q = finished @ ws \<and> ws @ concat (map pushes (c # cs)) = c # cs @ vs"
    show ?thesis
    proof (cases ws)
      case Nil
      with a have "concat (map pushes (c # cs)) = [] @ c # cs @ vs" by simp
      then show ?thesis using pushes_not_self by blast
    next
      case (Cons x xs)
      with a show ?thesis by simp
    qed
  next
    assume "q @ ws = finished \<and> concat (map pushes (c # cs)) = ws @ c # cs @ vs"
    then show ?thesis using pushes_not_self by blast
  qed
qed

text \<open>
  The loop of a flush from the index \<open>i\<close>, when the callbacks from there to the first one
  that throws are \<open>attempted\<close> and \<open>thrower\<close>.
\<close>

lemma run_Loop_from_throws:
  assumes "isFlushingSyncQueue s" and "syncQueue s = Some queue"
    and "callbackArrays s queue @ concat (map pushes (attempted @ [thrower])) =
         finished @ attempted @ thrower # rest"
    and "length finished = i"
    and "\<forall>c \<in> set attempted. outcome c = None" and "outcome thrower = Some e"
  shows "run (Loop_from queue i) s =
     Some (Some e, catch_finally (i + length attempted)
       ((cancel_if (list_ex flushes (attempted @ [thrower])) s)\<lparr>callbackArrays :=
          (callbackArrays s)(queue := finished @ attempted @ thrower # rest)\<rparr>))"
  using assms
proof (induction attempted arbitrary: s finished i)
  case Nil
  from Nil.prems(3) have "callbackArrays s queue @ concat (map pushes (thrower # [])) =
      finished @ thrower # [] @ rest" by simp
  from next_in_queue [OF this] obtain ws where q: "callbackArrays s queue = finished @ thrower # ws" ..
  have i: "i < length (callbackArrays s queue)" "callbackArrays s queue ! i = thrower"
    using Nil.prems(4) by (auto simp: q nth_append)
  have full: "callbackArrays s queue @ pushes thrower = finished @ thrower # rest"
    using Nil.prems(3) by simp
  have "run (Invoke thrower) s =
     Some (Some e, (cancel_if (flushes thrower) s)\<lparr>callbackArrays :=
        (callbackArrays s)(queue := finished @ thrower # rest)\<rparr>)"
    using run_Invoke_locked [OF Nil.prems(1,2), of thrower] Nil.prems(6) by (simp only: full)
  then show ?case
    using i by (subst run_Loop_from) simp
next
  case (Cons c cs)
  from Cons.prems(3) have "callbackArrays s queue @ concat (map pushes (c # cs @ [thrower])) =
      finished @ c # (cs @ [thrower]) @ rest" by simp
  from next_in_queue [OF this] obtain ws where q: "callbackArrays s queue = finished @ c # ws" ..
  have i: "i < length (callbackArrays s queue)" "callbackArrays s queue ! i = c"
    using Cons.prems(4) by (auto simp: q nth_append)
  let ?s1 = "(cancel_if (flushes c) s)\<lparr>callbackArrays :=
        (callbackArrays s)(queue := callbackArrays s queue @ pushes c)\<rparr>"
  have c: "run (Invoke c) s = Some (None, ?s1)"
    using run_Invoke_locked [OF Cons.prems(1,2), of c] Cons.prems(5) by simp
  have 1: "isFlushingSyncQueue ?s1" using Cons.prems(1) by simp
  have 2: "syncQueue ?s1 = Some queue" using Cons.prems(2) by simp
  have 3: "callbackArrays ?s1 queue @ concat (map pushes (cs @ [thrower])) =
      (finished @ [c]) @ cs @ thrower # rest"
    using Cons.prems(3) by simp
  have 4: "length (finished @ [c]) = Suc i" using Cons.prems(4) by simp
  have 5: "\<forall>c \<in> set cs. outcome c = None" using Cons.prems(5) by simp
  have st: "(cancel_if (list_ex flushes (cs @ [thrower])) ?s1)\<lparr>callbackArrays :=
          (callbackArrays ?s1)(queue := (finished @ [c]) @ cs @ thrower # rest)\<rparr> =
       (cancel_if (list_ex flushes ((c # cs) @ [thrower])) s)\<lparr>callbackArrays :=
          (callbackArrays s)(queue := finished @ (c # cs) @ thrower # rest)\<rparr>"
    by (simp add: cancel_if_callbackArrays disj_commute)
  have "run (Loop_from queue (Suc i)) ?s1 =
     Some (Some e, catch_finally (i + length (c # cs))
       ((cancel_if (list_ex flushes ((c # cs) @ [thrower])) s)\<lparr>callbackArrays :=
          (callbackArrays s)(queue := finished @ (c # cs) @ thrower # rest)\<rparr>))"
    using Cons.IH [OF 1 2 3 4 5 Cons.prems(6)] by (simp only: st) simp
  then show ?case
    using i c by (subst run_Loop_from) simp
qed

text \<open>
  When no callback throws, the flush invokes every callback of the queue once, those
  scheduled during the flush included, and leaves \<open>syncQueue\<close> \<open>null\<close>.
\<close>

lemma run_Loop_from_completes:
  assumes "isFlushingSyncQueue s" and "syncQueue s = Some queue"
    and "callbackArrays s queue @ concat (map pushes attempted) = finished @ attempted"
    and "length finished = i"
    and "\<forall>c \<in> set attempted. outcome c = None"
  shows "run (Loop_from queue i) s =
     Some (None,
       (cancel_if (list_ex flushes attempted) s)
         \<lparr>callbackArrays := (callbackArrays s)(queue := finished @ attempted),
          syncQueue := None, isFlushingSyncQueue := False\<rparr>)"
  using assms
proof (induction attempted arbitrary: s finished i)
  case Nil
  then have q: "callbackArrays s queue = finished" by simp
  have "s\<lparr>callbackArrays := (callbackArrays s)(queue := finished)\<rparr> = s"
    using q by (simp add: fun_upd_idem)
  then have "s\<lparr>callbackArrays := (callbackArrays s)(queue := finished),
               syncQueue := None, isFlushingSyncQueue := False\<rparr> =
             s\<lparr>syncQueue := None, isFlushingSyncQueue := False\<rparr>"
    by simp
  then show ?case
    using Nil.prems(4) q by (subst run_Loop_from) simp
next
  case (Cons c cs)
  from Cons.prems(3) have "callbackArrays s queue @ concat (map pushes (c # cs)) =
      finished @ c # cs @ []" by simp
  from next_in_queue [OF this] obtain ws where q: "callbackArrays s queue = finished @ c # ws" ..
  have i: "i < length (callbackArrays s queue)" "callbackArrays s queue ! i = c"
    using Cons.prems(4) by (auto simp: q nth_append)
  let ?s1 = "(cancel_if (flushes c) s)\<lparr>callbackArrays :=
        (callbackArrays s)(queue := callbackArrays s queue @ pushes c)\<rparr>"
  have c: "run (Invoke c) s = Some (None, ?s1)"
    using run_Invoke_locked [OF Cons.prems(1,2), of c] Cons.prems(5) by simp
  have 1: "isFlushingSyncQueue ?s1" using Cons.prems(1) by simp
  have 2: "syncQueue ?s1 = Some queue" using Cons.prems(2) by simp
  have 3: "callbackArrays ?s1 queue @ concat (map pushes cs) = (finished @ [c]) @ cs"
    using Cons.prems(3) by simp
  have 4: "length (finished @ [c]) = Suc i" using Cons.prems(4) by simp
  have 5: "\<forall>c \<in> set cs. outcome c = None" using Cons.prems(5) by simp
  have st: "(cancel_if (list_ex flushes cs) ?s1)
         \<lparr>callbackArrays := (callbackArrays ?s1)(queue := (finished @ [c]) @ cs),
          syncQueue := None, isFlushingSyncQueue := False\<rparr> =
       (cancel_if (list_ex flushes (c # cs)) s)
         \<lparr>callbackArrays := (callbackArrays s)(queue := finished @ c # cs),
          syncQueue := None, isFlushingSyncQueue := False\<rparr>"
    by (simp add: cancel_if_callbackArrays disj_commute)
  have "run (Loop_from queue (Suc i)) ?s1 =
     Some (None,
       (cancel_if (list_ex flushes (c # cs)) s)
         \<lparr>callbackArrays := (callbackArrays s)(queue := finished @ c # cs),
          syncQueue := None, isFlushingSyncQueue := False\<rparr>)"
    using Cons.IH [OF 1 2 3 4 5] by (simp only: st)
  then show ?case
    using i c by (subst run_Loop_from) simp
qed

lemma flushSyncCallbackQueueImpl_completes:
  assumes "\<not> isFlushingSyncQueue s" and "syncQueue s = Some queue"
    and "callbackArrays s queue @ concat (map pushes attempted) = attempted"
    and "\<forall>c \<in> set attempted. outcome c = None"
  shows "flushSyncCallbackQueueImpl s =
     Some (None,
       (cancel_if (list_ex flushes attempted) s)
         \<lparr>callbackArrays := (callbackArrays s)(queue := attempted),
          syncQueue := None, isFlushingSyncQueue := False\<rparr>)"
proof -
  let ?s0 = "s\<lparr>isFlushingSyncQueue := True\<rparr>"
  have 1: "isFlushingSyncQueue ?s0" by simp
  have 2: "syncQueue ?s0 = Some queue" using assms(2) by simp
  have 3: "callbackArrays ?s0 queue @ concat (map pushes attempted) = [] @ attempted"
    using assms(3) by simp
  have 4: "length ([] :: SchedulerCallback list) = 0" by simp
  from run_Loop_from_completes [OF 1 2 3 4 assms(4)]
  have "run (Loop_from queue 0) ?s0 =
     Some (None,
       (cancel_if (list_ex flushes attempted) s)
         \<lparr>callbackArrays := (callbackArrays s)(queue := attempted),
          syncQueue := None, isFlushingSyncQueue := False\<rparr>)"
    by (simp add: cancel_if_isFlushingSyncQueue)
  then show ?thesis
    using assms(1,2)
    by (simp add: flushSyncCallbackQueueImpl_def run_Enter_flushSyncCallbackQueueImpl)
qed

text \<open>
  Every call of the two functions returns: the callbacks still to be invoked, those
  scheduled during the flush included, get smaller with every turn of the loop.
\<close>

lemma run_Loop_from_returns:
  "isFlushingSyncQueue s \<Longrightarrow> syncQueue s = Some queue \<Longrightarrow>
   \<exists>r s'. run (Loop_from queue i) s = Some (r, s')"
proof (induction "size_list size (drop i (callbackArrays s queue))" arbitrary: i s
    rule: less_induct)
  case less
  show ?case
  proof (cases "i < length (callbackArrays s queue)")
    case False
    then show ?thesis by (subst run_Loop_from) simp
  next
    case True
    let ?c = "callbackArrays s queue ! i"
    let ?s1 = "(cancel_if (flushes ?c) s)\<lparr>callbackArrays :=
        (callbackArrays s)(queue := callbackArrays s queue @ pushes ?c)\<rparr>"
    have c: "run (Invoke ?c) s = Some (outcome ?c, ?s1)"
      using run_Invoke_locked [OF less.prems, of ?c] by simp
    show ?thesis
    proof (cases "outcome ?c")
      case (Some e)
      then show ?thesis using True c by (subst run_Loop_from) simp
    next
      case None
      have d: "drop i (callbackArrays s queue) = ?c # drop (Suc i) (callbackArrays s queue)"
        using True by (simp add: Cons_nth_drop_Suc)
      have "size_list size (drop (Suc i) (callbackArrays ?s1 queue)) =
          size_list size (drop (Suc i) (callbackArrays s queue)) + size_list size (pushes ?c)"
        using True by (simp add: size_list_append)
      also have "\<dots> < size_list size (drop i (callbackArrays s queue))"
        using size_pushes [of ?c] by (simp add: d)
      finally have m: "size_list size (drop (Suc i) (callbackArrays ?s1 queue)) <
          size_list size (drop i (callbackArrays s queue))" .
      have "\<exists>r s'. run (Loop_from queue (Suc i)) ?s1 = Some (r, s')"
        using less.prems by (intro less.hyps [OF m]) simp_all
      then show ?thesis using True c None by (subst run_Loop_from) simp
    qed
  qed
qed

lemma flushSyncCallbackQueueImpl_returns:
  "\<exists>r s'. flushSyncCallbackQueueImpl s = Some (r, s')"
proof (cases "syncQueue s")
  case None
  then show ?thesis
    by (simp add: flushSyncCallbackQueueImpl_def run_Enter_flushSyncCallbackQueueImpl)
next
  case (Some queue)
  show ?thesis
  proof (cases "isFlushingSyncQueue s")
    case True
    then show ?thesis
      by (simp add: flushSyncCallbackQueueImpl_def run_flush_locked)
  next
    case False
    have "\<exists>r s'. run (Loop_from queue 0) (s\<lparr>isFlushingSyncQueue := True\<rparr>) = Some (r, s')"
      using Some by (intro run_Loop_from_returns) simp_all
    then show ?thesis
      using Some False
      by (simp add: flushSyncCallbackQueueImpl_def run_Enter_flushSyncCallbackQueueImpl)
  qed
qed

lemma flushSyncCallbackQueue_returns:
  "\<exists>r s'. flushSyncCallbackQueue s = Some (r, s')"
  using flushSyncCallbackQueueImpl_returns [of "cancel_node s"]
  by (simp add: flushSyncCallbackQueue_def flushSyncCallbackQueueImpl_def
      run_Enter_flushSyncCallbackQueue)

text \<open>
  Conversely, a flush that ends with an exception has met a callback that throws it: the
  queue, followed by what was scheduled during the flush, splits into callbacks attempted
  without an exception, the callback that threw, and a rest.
\<close>

lemma run_Loop_from_only_if:
  "isFlushingSyncQueue s \<Longrightarrow> syncQueue s = Some queue \<Longrightarrow>
   run (Loop_from queue i) s = Some (Some e, s') \<Longrightarrow>
   \<exists>attempted thrower rest.
     callbackArrays s queue @ concat (map pushes (attempted @ [thrower])) =
       take i (callbackArrays s queue) @ attempted @ thrower # rest \<and>
     (\<forall>c \<in> set attempted. outcome c = None) \<and> outcome thrower = Some e"
proof (induction "size_list size (drop i (callbackArrays s queue))" arbitrary: i s
    rule: less_induct)
  case less
  let ?Q = "callbackArrays s queue"
  show ?case
  proof (cases "i < length ?Q")
    case False
    then have "run (Loop_from queue i) s =
        Some (None, s\<lparr>syncQueue := None, isFlushingSyncQueue := False\<rparr>)"
      by (subst run_Loop_from) simp
    then show ?thesis using less.prems(3) by simp
  next
    case True
    let ?c = "?Q ! i"
    let ?s1 = "(cancel_if (flushes ?c) s)\<lparr>callbackArrays := (callbackArrays s)(queue := ?Q @ pushes ?c)\<rparr>"
    have c: "run (Invoke ?c) s = Some (outcome ?c, ?s1)"
      using run_Invoke_locked [OF less.prems(1,2), of ?c] by simp
    have d: "drop i ?Q = ?c # drop (Suc i) ?Q"
      using True by (simp add: Cons_nth_drop_Suc)
    have split: "?Q = take i ?Q @ ?c # drop (Suc i) ?Q"
      using True by (simp add: id_take_nth_drop [symmetric])
    show ?thesis
    proof (cases "outcome ?c")
      case (Some e')
      then have "run (Loop_from queue i) s = Some (Some e', catch_finally i ?s1)"
        using True c by (subst run_Loop_from) simp
      then have e: "e' = e" using less.prems(3) by simp
      have "?Q @ concat (map pushes ([] @ [?c])) =
          take i ?Q @ [] @ ?c # (drop (Suc i) ?Q @ pushes ?c)"
        using split by simp
      then show ?thesis using Some e
        by (intro exI [of _ "[]"] exI [of _ ?c] exI [of _ "drop (Suc i) ?Q @ pushes ?c"]) simp
    next
      case None
      have "size_list size (drop (Suc i) (callbackArrays ?s1 queue)) =
          size_list size (drop (Suc i) ?Q) + size_list size (pushes ?c)"
        using True by (simp add: size_list_append)
      also have "\<dots> < size_list size (drop i ?Q)"
        using size_pushes [of ?c] by (simp add: d)
      finally have m: "size_list size (drop (Suc i) (callbackArrays ?s1 queue)) <
          size_list size (drop i ?Q)" .
      have r: "run (Loop_from queue (Suc i)) ?s1 = Some (Some e, s')"
        using less.prems(3) True c None by (subst (asm) run_Loop_from) simp
      have 1: "isFlushingSyncQueue ?s1" using less.prems(1) by simp
      have 2: "syncQueue ?s1 = Some queue" using less.prems(2) by simp
      from less.hyps [OF m 1 2 r] obtain attempted thrower rest where
        a: "callbackArrays ?s1 queue @ concat (map pushes (attempted @ [thrower])) =
              take (Suc i) (callbackArrays ?s1 queue) @ attempted @ thrower # rest"
        and b: "\<forall>c \<in> set attempted. outcome c = None" and t: "outcome thrower = Some e"
        by (elim exE conjE) (rule that)
      have tk: "take (Suc i) (callbackArrays ?s1 queue) = take i ?Q @ [?c]"
        using True by (simp add: take_Suc_conv_app_nth)
      have "?Q @ concat (map pushes ((?c # attempted) @ [thrower])) =
          take i ?Q @ (?c # attempted) @ thrower # rest"
        using a unfolding tk by simp
      then show ?thesis using b t None
        by (intro exI [of _ "?c # attempted"] exI [of _ thrower] exI [of _ rest]) simp
    qed
  qed
qed

lemma flushSyncCallbackQueueImpl_throws_only_if:
  assumes "flushSyncCallbackQueueImpl s = Some (Some e, s')"
  shows "\<not> isFlushingSyncQueue s \<and>
    (\<exists>queue attempted thrower rest. syncQueue s = Some queue \<and>
       callbackArrays s queue @ concat (map pushes (attempted @ [thrower])) =
         attempted @ thrower # rest \<and>
       (\<forall>c \<in> set attempted. outcome c = None) \<and> outcome thrower = Some e)"
proof -
  from assms obtain queue where q: "syncQueue s = Some queue"
    by (cases "syncQueue s")
       (simp_all add: flushSyncCallbackQueueImpl_def run_Enter_flushSyncCallbackQueueImpl)
  have l: "\<not> isFlushingSyncQueue s"
    using assms q
    by (auto simp: flushSyncCallbackQueueImpl_def run_Enter_flushSyncCallbackQueueImpl)
  let ?s0 = "s\<lparr>isFlushingSyncQueue := True\<rparr>"
  have r: "run (Loop_from queue 0) ?s0 = Some (Some e, s')"
    using assms q l
    by (simp add: flushSyncCallbackQueueImpl_def run_Enter_flushSyncCallbackQueueImpl)
  have 1: "isFlushingSyncQueue ?s0" by simp
  have 2: "syncQueue ?s0 = Some queue" using q by simp
  from run_Loop_from_only_if [OF 1 2 r]
  show ?thesis using q l by simp
qed

text \<open>The flush of the example, computed from the equations of the functions.\<close>

lemma flush_example_computed:
  "map_option (\<lambda>(thrown, s). (thrown, callbackArrays s 0, callbackArrays s 1, syncQueue s,
       immediateQueueCallbackNode s, isFlushingSyncQueue s, scheduled s, cancelled s))
     (flushSyncCallbackQueueImpl flush_example) =
   Some (Some (Thrown 1),
     [Call_flushSyncCallbackQueue Return_null,
      Return_continuation (Call_scheduleSyncCallback Return_null (Throw (Thrown 1))),
      Call_scheduleSyncCallback Return_null Return_null,
      Return_null],
     [Call_scheduleSyncCallback Return_null Return_null, Return_null],
     Some 1, None, False,
     [(Scheduler_ImmediatePriority, Task_flushSyncCallbackQueueImpl),
      (Scheduler_ImmediatePriority, Task_flushSyncCallbackQueue)],
     [0])"
  by code_simp

text \<open>
  C5. While a flush is in progress, that is while \<open>isFlushingSyncQueue\<close> is set, a call of
  \<open>flushSyncCallbackQueueImpl\<close> returns at once and changes nothing, and a call of
  \<open>flushSyncCallbackQueue\<close> does nothing but cancel the node pending with the external
  scheduler. Now take a state in which no flush is in progress, and let the queue, followed
  by the callbacks that \<open>attempted\<close> and \<open>thrower\<close> schedule, consist of the callbacks
  \<open>attempted\<close>, which all end without an exception, of the callback \<open>thrower\<close>, which
  ends with the exception \<open>e\<close>, and of the callbacks \<open>rest\<close>; any of them may call
  \<open>flushSyncCallbackQueue\<close> while it runs. Then \<open>flushSyncCallbackQueueImpl\<close> returns
  with the exception \<open>e\<close>; \<open>syncQueue\<close> refers to a new array that holds \<open>rest\<close>; one call
  of the external scheduler at its immediate priority, for \<open>flushSyncCallbackQueue\<close>, has
  been added; \<open>isFlushingSyncQueue\<close> is false. Nothing else has changed, except that the
  array flushed holds the callbacks scheduled during the flush and that the pending node
  is cancelled when one of the callbacks invoked has called \<open>flushSyncCallbackQueue\<close>.
\<close>

theorem flushSyncCallbackQueueImpl_throws:
  "(isFlushingSyncQueue s \<longrightarrow>
      flushSyncCallbackQueueImpl s = Some (None, s) \<and>
      flushSyncCallbackQueue s = Some (None, cancel_node s)) \<and>
   (\<not> isFlushingSyncQueue s \<and> syncQueue s = Some queue \<and>
    callbackArrays s queue @ concat (map pushes (attempted @ [thrower])) =
      attempted @ thrower # rest \<and>
    (\<forall>c \<in> set attempted. outcome c = None) \<and> outcome thrower = Some e \<longrightarrow>
      flushSyncCallbackQueueImpl s =
        Some (Some e,
          (cancel_if (list_ex flushes (attempted @ [thrower])) s)
            \<lparr>callbackArrays := (callbackArrays s)
               (queue := attempted @ thrower # rest, callbackArray_count s := rest),
             callbackArray_count := Suc (callbackArray_count s),
             syncQueue := Some (callbackArray_count s),
             scheduled := scheduled s @
               [(Scheduler_ImmediatePriority, Task_flushSyncCallbackQueue)],
             isFlushingSyncQueue := False\<rparr>))"
proof (intro conjI impI)
  assume "isFlushingSyncQueue s"
  then show "flushSyncCallbackQueueImpl s = Some (None, s)"
    and "flushSyncCallbackQueue s = Some (None, cancel_node s)"
    by (simp_all add: flushSyncCallbackQueueImpl_def flushSyncCallbackQueue_def run_flush_locked)
next
  assume a: "\<not> isFlushingSyncQueue s \<and> syncQueue s = Some queue \<and>
    callbackArrays s queue @ concat (map pushes (attempted @ [thrower])) =
      attempted @ thrower # rest \<and>
    (\<forall>c \<in> set attempted. outcome c = None) \<and> outcome thrower = Some e"
  let ?s0 = "s\<lparr>isFlushingSyncQueue := True\<rparr>"
  let ?b = "list_ex flushes (attempted @ [thrower])"
  let ?s1 = "(cancel_if ?b ?s0)\<lparr>callbackArrays :=
          (callbackArrays ?s0)(queue := [] @ attempted @ thrower # rest)\<rparr>"
  have 1: "isFlushingSyncQueue ?s0" by simp
  have 2: "syncQueue ?s0 = Some queue" using a by simp
  have 3: "callbackArrays ?s0 queue @ concat (map pushes (attempted @ [thrower])) =
      [] @ attempted @ thrower # rest" using a by simp
  have 4: "length ([] :: SchedulerCallback list) = 0" by simp
  have 5: "\<forall>c \<in> set attempted. outcome c = None" using a by simp
  have 6: "outcome thrower = Some e" using a by simp
  have loop: "run (Loop_from queue 0) ?s0 =
      Some (Some e, catch_finally (0 + length attempted) ?s1)"
    by (rule run_Loop_from_throws [OF 1 2 3 4 5 6])
  have final: "catch_finally (0 + length attempted) ?s1 =
      (cancel_if ?b s)
        \<lparr>callbackArrays := (callbackArrays s)
           (queue := attempted @ thrower # rest, callbackArray_count s := rest),
         callbackArray_count := Suc (callbackArray_count s),
         syncQueue := Some (callbackArray_count s),
         scheduled := scheduled s @
           [(Scheduler_ImmediatePriority, Task_flushSyncCallbackQueue)],
         isFlushingSyncQueue := False\<rparr>"
    using a
    by (simp add: catch_finally_def new_array_def Scheduler_scheduleCallback_def
        cancel_if_isFlushingSyncQueue)
  show "flushSyncCallbackQueueImpl s =
        Some (Some e,
          (cancel_if ?b s)
            \<lparr>callbackArrays := (callbackArrays s)
               (queue := attempted @ thrower # rest, callbackArray_count s := rest),
             callbackArray_count := Suc (callbackArray_count s),
             syncQueue := Some (callbackArray_count s),
             scheduled := scheduled s @
               [(Scheduler_ImmediatePriority, Task_flushSyncCallbackQueue)],
             isFlushingSyncQueue := False\<rparr>)"
    using a loop final
    by (simp add: flushSyncCallbackQueueImpl_def run_Enter_flushSyncCallbackQueueImpl)
qed

theorem flushSyncCallbackQueueImpl_throws_witness:
  "flushSyncCallbackQueueImpl flush_example =
     Some (Some (Thrown 1),
       flush_example
         \<lparr>callbackArrays := (callbackArrays flush_example)
            (0 := [Call_flushSyncCallbackQueue Return_null,
                   Return_continuation
                     (Call_scheduleSyncCallback Return_null (Throw (Thrown 1))),
                   Call_scheduleSyncCallback Return_null Return_null,
                   Return_null],
             1 := [Call_scheduleSyncCallback Return_null Return_null, Return_null]),
          callbackArray_count := 2,
          syncQueue := Some 1,
          immediateQueueCallbackNode := None,
          cancelled := [0],
          scheduled := [(Scheduler_ImmediatePriority, Task_flushSyncCallbackQueueImpl),
                        (Scheduler_ImmediatePriority, Task_flushSyncCallbackQueue)],
          isFlushingSyncQueue := False\<rparr>) \<and>
   flushSyncCallbackQueueImpl (flush_example\<lparr>isFlushingSyncQueue := True\<rparr>) =
     Some (None, flush_example\<lparr>isFlushingSyncQueue := True\<rparr>) \<and>
   flushSyncCallbackQueue (flush_example\<lparr>isFlushingSyncQueue := True\<rparr>) =
     Some (None, flush_example\<lparr>isFlushingSyncQueue := True,
       immediateQueueCallbackNode := None, cancelled := [0]\<rparr>)"
proof -
  have h: "\<not> isFlushingSyncQueue flush_example \<and> syncQueue flush_example = Some 0 \<and>
    callbackArrays flush_example 0 @ concat (map pushes
       ([Call_flushSyncCallbackQueue Return_null] @
        [Return_continuation (Call_scheduleSyncCallback Return_null (Throw (Thrown 1)))])) =
      [Call_flushSyncCallbackQueue Return_null] @
      Return_continuation (Call_scheduleSyncCallback Return_null (Throw (Thrown 1))) #
      [Call_scheduleSyncCallback Return_null Return_null, Return_null] \<and>
    (\<forall>c \<in> set [Call_flushSyncCallbackQueue Return_null]. outcome c = None) \<and>
    outcome (Return_continuation (Call_scheduleSyncCallback Return_null (Throw (Thrown 1)))) =
      Some (Thrown 1)"
    by (simp add: flush_example_def)
  have l: "isFlushingSyncQueue (flush_example\<lparr>isFlushingSyncQueue := True\<rparr>)" by simp
  from flushSyncCallbackQueueImpl_throws [THEN conjunct2, rule_format, OF h]
  have 1: "flushSyncCallbackQueueImpl flush_example =
     Some (Some (Thrown 1),
       flush_example
         \<lparr>callbackArrays := (callbackArrays flush_example)
            (0 := [Call_flushSyncCallbackQueue Return_null,
                   Return_continuation
                     (Call_scheduleSyncCallback Return_null (Throw (Thrown 1))),
                   Call_scheduleSyncCallback Return_null Return_null,
                   Return_null],
             1 := [Call_scheduleSyncCallback Return_null Return_null, Return_null]),
          callbackArray_count := 2,
          syncQueue := Some 1,
          immediateQueueCallbackNode := None,
          cancelled := [0],
          scheduled := [(Scheduler_ImmediatePriority, Task_flushSyncCallbackQueueImpl),
                        (Scheduler_ImmediatePriority, Task_flushSyncCallbackQueue)],
          isFlushingSyncQueue := False\<rparr>)"
    by (simp add: flush_example_def cancel_if_def cancel_node_def)
  from flushSyncCallbackQueueImpl_throws [THEN conjunct1, rule_format, OF l]
  have 2: "flushSyncCallbackQueueImpl (flush_example\<lparr>isFlushingSyncQueue := True\<rparr>) =
     Some (None, flush_example\<lparr>isFlushingSyncQueue := True\<rparr>)"
    and 3: "flushSyncCallbackQueue (flush_example\<lparr>isFlushingSyncQueue := True\<rparr>) =
     Some (None, flush_example\<lparr>isFlushingSyncQueue := True,
       immediateQueueCallbackNode := None, cancelled := [0]\<rparr>)"
    by (simp_all add: flush_example_def cancel_node_def)
  show ?thesis using 1 2 3 by (intro conjI)
qed

end
